theory Spec2Isabelle
  imports Main "HOL-Library.Signed_Division"
begin

section \<open>The LRU cache with expiration of cache/lru.go\<close>

subsection \<open>Data model\<close>

text \<open>
  A \<open>*list.Element\<close> is an address. Each call of \<open>PushFront\<close> allocates a new
  element; \<open>nextElem\<close> stands for the allocator and is the next unused address.
\<close>

type_synonym elem = nat

text \<open>
  \<open>cacheRecord\<close>: \<open>expireAt\<close> is an \<open>int64\<close> of milliseconds. The code only
  compares it, so it is an \<open>int\<close> here. The field \<open>value\<close> is written
  \<open>value'\<close>.

  Modelled from the spec: the type \<open>Key\<close> is declared outside cache/lru.go. The spec
  calls a key an opaque comparable identifier; it is the type parameter \<open>'k\<close>, and Go's
  \<open>==\<close> on keys is equality. The value is an \<open>interface{}\<close>, the type parameter
  \<open>'v\<close>.
\<close>

record ('k, 'v) cacheRecord =
  key :: 'k
  value' :: 'v
  expireAt :: int

text \<open>
  Modelled from the spec: the type \<open>Stats\<close> is declared outside cache/lru.go. The spec
  describes it as two counters, hits and misses; the code increments the fields
  \<open>Hit\<close> and \<open>Miss\<close> by one. They are unbounded integers here.
\<close>

record Stats =
  Hit :: int
  Miss :: int

text \<open>
  \<open>LRUCache\<close>: \<open>cache\<close> is the index (a Go map from keys to element pointers),
  \<open>ll\<close> is the linked list as the sequence of its elements, front first, and
  \<open>heap\<close> gives the \<open>Value\<close> of an element, the record it points to
  (\<open>None\<close> where the \<open>Value\<close> holds no \<open>*cacheRecord\<close>). The mutex and
  the two metric descriptors take no part in the operations below.
\<close>

record ('k, 'v) LRUCache =
  cache :: "'k \<rightharpoonup> elem"
  ll :: "elem list"
  heap :: "elem \<rightharpoonup> ('k, 'v) cacheRecord"
  nextElem :: elem
  stats :: Stats
  cacheSize :: int

text \<open>The type assertion \<open>e.Value.(*cacheRecord)\<close> panics when it fails.\<close>

datatype panic = TypeAssertion

subsection \<open>The operations of container/list that the cache uses\<close>

text \<open>
  Go's standard library, by its documentation: \<open>PushFront\<close> inserts a new element at
  the front, \<open>MoveToFront\<close> and \<open>Remove\<close> do nothing for an element that is not in
  the list, \<open>Back\<close> is nil for the empty list.
\<close>

definition list_PushFront :: "elem list \<Rightarrow> elem \<Rightarrow> elem list" where
  "list_PushFront l e = e # l"

definition list_MoveToFront :: "elem list \<Rightarrow> elem \<Rightarrow> elem list" where
  "list_MoveToFront l e = (if e \<in> set l then e # remove1 e l else l)"

definition list_Remove :: "elem list \<Rightarrow> elem \<Rightarrow> elem list" where
  "list_Remove l e = remove1 e l"

definition list_Back :: "elem list \<Rightarrow> elem option" where
  "list_Back l = (if l = [] then None else Some (last l))"

definition list_Len :: "elem list \<Rightarrow> int" where
  "list_Len l = int (length l)"

subsection \<open>The cache operations\<close>

text \<open>
  Modelled from the spec: \<open>holster.SetDefault\<close> belongs to the external library
  github.com/mailgun/holster and is not part of cache/lru.go. By the spec's section on
  external interfaces, only a missing or zero value is replaced by the default 50000;
  every other value, a negative one too, is kept.
\<close>

definition SetDefault :: "int \<Rightarrow> int \<Rightarrow> int" where
  "SetDefault dst dflt = (if dst = 0 then dflt else dst)"

definition NewLRUCache :: "int \<Rightarrow> ('k, 'v) LRUCache" where
  "NewLRUCache maxSize =
     \<lparr>cache = Map.empty, ll = [], heap = Map.empty, nextElem = 0,
      stats = \<lparr>Hit = 0, Miss = 0\<rparr>, cacheSize = SetDefault maxSize 50000\<rparr>"

definition removeElement ::
  "('k, 'v) LRUCache \<Rightarrow> elem \<Rightarrow> panic + ('k, 'v) LRUCache" where
  "removeElement c e =
     (case heap c e of
        None \<Rightarrow> Inl TypeAssertion
      | Some kv \<Rightarrow>
          Inr (c\<lparr>ll := list_Remove (ll c) e, cache := (cache c)(key kv := None)\<rparr>))"

definition removeOldest :: "('k, 'v) LRUCache \<Rightarrow> panic + ('k, 'v) LRUCache" where
  "removeOldest c =
     (case list_Back (ll c) of
        None \<Rightarrow> Inr c
      | Some ele \<Rightarrow> removeElement c ele)"

definition addRecord ::
  "('k, 'v) LRUCache \<Rightarrow> ('k, 'v) cacheRecord \<Rightarrow> panic + (bool \<times> ('k, 'v) LRUCache)" where
  "addRecord c record =
     (case cache c (key record) of
        Some ee \<Rightarrow>
          (case heap c ee of
             None \<Rightarrow> Inl TypeAssertion
           | Some temp \<Rightarrow>
               Inr (True, c\<lparr>ll := list_MoveToFront (ll c) ee,
                             heap := (heap c)(ee \<mapsto> record)\<rparr>))
      | None \<Rightarrow>
          (let ele = nextElem c;
               c1 = c\<lparr>ll := list_PushFront (ll c) ele,
                      heap := (heap c)(ele \<mapsto> record),
                      nextElem := Suc ele,
                      cache := (cache c)(key record \<mapsto> ele)\<rparr>
           in if cacheSize c1 \<noteq> 0 \<and> list_Len (ll c1) > cacheSize c1
              then (case removeOldest c1 of
                      Inl p \<Rightarrow> Inl p
                    | Inr c2 \<Rightarrow> Inr (False, c2))
              else Inr (False, c1)))"

definition Add ::
  "('k, 'v) LRUCache \<Rightarrow> 'k \<Rightarrow> 'v \<Rightarrow> int \<Rightarrow> panic + (bool \<times> ('k, 'v) LRUCache)" where
  "Add c k v e = addRecord c \<lparr>key = k, value' = v, expireAt = e\<rparr>"

text \<open>
  \<open>MillisecondNow\<close>: the argument is the clock reading \<open>time.Now().UnixNano()\<close>;
  Go's integer division truncates towards zero.
\<close>

definition MillisecondNow :: "int \<Rightarrow> int" where
  "MillisecondNow nanos = nanos sdiv 1000000"

text \<open>
  \<open>Get\<close> takes the clock reading of the call. The result \<open>None\<close> is Go's
  \<open>(nil, false)\<close>, and \<open>Some v\<close> is \<open>(v, true)\<close>.
\<close>

definition Get ::
  "('k, 'v) LRUCache \<Rightarrow> 'k \<Rightarrow> int \<Rightarrow> panic + ('v option \<times> ('k, 'v) LRUCache)" where
  "Get c k nanos =
     (case cache c k of
        Some ele \<Rightarrow>
          (case heap c ele of
             None \<Rightarrow> Inl TypeAssertion
           | Some entry \<Rightarrow>
               if expireAt entry < MillisecondNow nanos
               then (case removeElement c ele of
                       Inl p \<Rightarrow> Inl p
                     | Inr c1 \<Rightarrow>
                         Inr (None, c1\<lparr>stats := (stats c1)\<lparr>Miss := Miss (stats c1) + 1\<rparr>\<rparr>))
               else Inr (Some (value' entry),
                         c\<lparr>stats := (stats c)\<lparr>Hit := Hit (stats c) + 1\<rparr>,
                           ll := list_MoveToFront (ll c) ele\<rparr>))
      | None \<Rightarrow> Inr (None, c\<lparr>stats := (stats c)\<lparr>Miss := Miss (stats c) + 1\<rparr>\<rparr>))"

definition Remove :: "('k, 'v) LRUCache \<Rightarrow> 'k \<Rightarrow> panic + ('k, 'v) LRUCache" where
  "Remove c k =
     (case cache c k of
        Some ele \<Rightarrow> removeElement c ele
      | None \<Rightarrow> Inr c)"

definition Size :: "('k, 'v) LRUCache \<Rightarrow> int" where
  "Size c = list_Len (ll c)"

definition UpdateExpiration ::
  "('k, 'v) LRUCache \<Rightarrow> 'k \<Rightarrow> int \<Rightarrow> panic + (bool \<times> ('k, 'v) LRUCache)" where
  "UpdateExpiration c k e =
     (case cache c k of
        Some ele \<Rightarrow>
          (case heap c ele of
             None \<Rightarrow> Inl TypeAssertion
           | Some entry \<Rightarrow> Inr (True, c\<lparr>heap := (heap c)(ele \<mapsto> entry\<lparr>expireAt := e\<rparr>)\<rparr>))
      | None \<Rightarrow> Inr (False, c))"


subsection \<open>Observations, consistency and call sequences\<close>

text \<open>The keys of the entries in the list, front first.\<close>

definition keys :: "('k, 'v) LRUCache \<Rightarrow> 'k list" where
  "keys c = List.map_filter (\<lambda>e. map_option key (heap c e)) (ll c)"

text \<open>
  The index and the list are consistent: the list has no element twice, every element
  of the list holds a record that the index maps back to this element, and the index
  has no other keys. Every element of the list is below the allocator.
\<close>

definition entry_ok :: "('k, 'v) LRUCache \<Rightarrow> elem \<Rightarrow> bool" where
  "entry_ok c e =
     (case heap c e of None \<Rightarrow> False | Some r \<Rightarrow> cache c (key r) = Some e)"

definition consistent :: "('k, 'v) LRUCache \<Rightarrow> bool" where
  "consistent c \<longleftrightarrow>
     distinct (ll c) \<and>
     (\<forall>e \<in> set (ll c). e < nextElem c \<and> entry_ok c e) \<and>
     dom (cache c) = set (keys c)"

text \<open>A call of one of the four public operations, and what it returns.\<close>

datatype ('k, 'v) call =
  CallAdd 'k 'v int | CallGet 'k int | CallRemove 'k | CallUpdateExpiration 'k int

datatype 'v ret = RetAdd bool | RetGet "'v option" | RetRemove | RetUpdate bool

fun do_call :: "('k, 'v) LRUCache \<Rightarrow> ('k, 'v) call \<Rightarrow> panic + ('v ret \<times> ('k, 'v) LRUCache)" where
  "do_call c (CallAdd k v e) =
     (case Add c k v e of Inl p \<Rightarrow> Inl p | Inr (b, c1) \<Rightarrow> Inr (RetAdd b, c1))"
| "do_call c (CallGet k nanos) =
     (case Get c k nanos of Inl p \<Rightarrow> Inl p | Inr (r, c1) \<Rightarrow> Inr (RetGet r, c1))"
| "do_call c (CallRemove k) =
     (case Remove c k of Inl p \<Rightarrow> Inl p | Inr c1 \<Rightarrow> Inr (RetRemove, c1))"
| "do_call c (CallUpdateExpiration k e) =
     (case UpdateExpiration c k e of Inl p \<Rightarrow> Inl p | Inr (b, c1) \<Rightarrow> Inr (RetUpdate b, c1))"

fun run :: "('k, 'v) LRUCache \<Rightarrow> ('k, 'v) call list \<Rightarrow> panic + ('v ret list \<times> ('k, 'v) LRUCache)" where
  "run c [] = Inr ([], c)"
| "run c (x # xs) =
     (case do_call c x of
        Inl p \<Rightarrow> Inl p
      | Inr (r, c1) \<Rightarrow>
          (case run c1 xs of Inl p \<Rightarrow> Inl p | Inr (rs, c2) \<Rightarrow> Inr (r # rs, c2)))"

text \<open>The state after \<open>PushFront\<close> and the insertion into the index, before any eviction.\<close>

definition pushed :: "('k, 'v) LRUCache \<Rightarrow> ('k, 'v) cacheRecord \<Rightarrow> ('k, 'v) LRUCache" where
  "pushed c r = c\<lparr>ll := nextElem c # ll c, heap := (heap c)(nextElem c \<mapsto> r),
            nextElem := Suc (nextElem c), cache := (cache c)(key r \<mapsto> nextElem c)\<rparr>"

text \<open>A cache of capacity 2 that holds \<open>b\<close> (front) and \<open>a\<close> (back).\<close>

definition ab_cache :: "(string, int) LRUCache" where
  "ab_cache =
     \<lparr>cache = [''a'' \<mapsto> 0, ''b'' \<mapsto> 1], ll = [1, 0],
      heap = [0 \<mapsto> \<lparr>key = ''a'', value' = 1, expireAt = 5000\<rparr>,
              1 \<mapsto> \<lparr>key = ''b'', value' = 2, expireAt = 7000\<rparr>],
      nextElem = 2, stats = \<lparr>Hit = 0, Miss = 0\<rparr>, cacheSize = 2\<rparr>"

text \<open>Counting the hits and the misses among the returns of a call sequence.\<close>

fun is_Get :: "('k, 'v) call \<Rightarrow> bool" where
  "is_Get (CallGet k t) = True"
| "is_Get x = False"

fun is_hit :: "'v ret \<Rightarrow> bool" where
  "is_hit (RetGet (Some v)) = True"
| "is_hit r = False"

fun is_miss :: "'v ret \<Rightarrow> bool" where
  "is_miss (RetGet None) = True"
| "is_miss r = False"

definition hits :: "'v ret list \<Rightarrow> nat" where
  "hits rs = length (filter is_hit rs)"

definition misses :: "'v ret list \<Rightarrow> nat" where
  "misses rs = length (filter is_miss rs)"

text \<open>\<open>adds n\<close> adds the \<open>n\<close> distinct keys \<open>0, ..., n - 1\<close>.\<close>

definition adds :: "nat \<Rightarrow> (nat, unit) call list" where
  "adds n = map (\<lambda>k. CallAdd k () 0) [0..<n]"

text \<open>\<open>Size\<close> after a call sequence.\<close>

definition Size_after :: "('k, 'v) LRUCache \<Rightarrow> ('k, 'v) call list \<Rightarrow> panic + int" where
  "Size_after c xs = (case run c xs of Inl p \<Rightarrow> Inl p | Inr (rs, c') \<Rightarrow> Inr (Size c'))"

text \<open>A cache constructed with a negative capacity.\<close>

definition neg_cache :: "(string, int) LRUCache" where
  "neg_cache = NewLRUCache (- 3)"

text \<open>The cache \<open>ab_cache\<close> with the capacity field set to 0.\<close>

definition unbounded_cache :: "(string, int) LRUCache" where
  "unbounded_cache = ab_cache\<lparr>cacheSize := 0\<rparr>"

text \<open>
  The spec's notion of use: a key is touched by every \<open>Add\<close> of it (new or again) and
  by every \<open>Get\<close> of it that is a hit. \<open>last_touch xs rs k\<close> is the position (from 1)
  of the last call of \<open>xs\<close>, with returns \<open>rs\<close>, that touched \<open>k\<close>, and 0 when there
  is none.
\<close>

fun touched :: "('k, 'v) call \<Rightarrow> 'v ret \<Rightarrow> 'k option" where
  "touched (CallAdd k v e) r = Some k"
| "touched (CallGet k t) (RetGet (Some v)) = Some k"
| "touched x r = None"

fun stamp :: "nat \<Rightarrow> ('k \<Rightarrow> nat) \<Rightarrow> ('k, 'v) call list \<Rightarrow> 'v ret list \<Rightarrow> 'k \<Rightarrow> nat" where
  "stamp n st (x # xs) (r # rs) =
     stamp (Suc n) (case touched x r of None \<Rightarrow> st | Some k \<Rightarrow> st(k := Suc n)) xs rs"
| "stamp n st xs rs = st"

definition last_touch :: "('k, 'v) call list \<Rightarrow> 'v ret list \<Rightarrow> 'k \<Rightarrow> nat" where
  "last_touch xs rs = stamp 0 (\<lambda>k. 0) xs rs"

text \<open>
  A list of keys is in recency order for the stamps \<open>st\<close>: the stamps decrease strictly
  from front to back, and each is between 1 and \<open>n\<close>.
\<close>

definition recent :: "('k \<Rightarrow> nat) \<Rightarrow> nat \<Rightarrow> 'k list \<Rightarrow> bool" where
  "recent st n ks \<longleftrightarrow>
     sorted_wrt (\<lambda>a b. st b < st a) ks \<and> (\<forall>k \<in> set ks. 0 < st k \<and> st k \<le> n)"

section \<open>Auxiliary lemmas\<close>

lemma set_keys: "set (keys c) = {k. \<exists>e r. e \<in> set (ll c) \<and> heap c e = Some r \<and> key r = k}"
  by (force simp: keys_def map_filter_def image_iff)

lemma consistent_iff:
  "consistent c \<longleftrightarrow>
     distinct (ll c) \<and>
     (\<forall>e \<in> set (ll c). e < nextElem c) \<and>
     (\<forall>e \<in> set (ll c). \<exists>r. heap c e = Some r \<and> cache c (key r) = Some e) \<and>
     (\<forall>k e. cache c k = Some e \<longrightarrow> e \<in> set (ll c) \<and> (\<exists>r. heap c e = Some r \<and> key r = k))"
  (is "?L \<longleftrightarrow> ?R")
proof
  assume L: ?L
  have d: "distinct (ll c)" and b: "\<forall>e \<in> set (ll c). e < nextElem c"
    using L by (simp_all add: consistent_def)
  have ok: "\<forall>e \<in> set (ll c). \<exists>r. heap c e = Some r \<and> cache c (key r) = Some e"
    using L by (auto simp: consistent_def entry_ok_def split: option.splits)
  have dm: "dom (cache c) = set (keys c)"
    using L by (simp add: consistent_def)
  have "e \<in> set (ll c) \<and> (\<exists>r. heap c e = Some r \<and> key r = k)" if h: "cache c k = Some e" for k e
  proof -
    from h dm have "k \<in> set (keys c)" by auto
    then obtain e' r where e': "e' \<in> set (ll c)" "heap c e' = Some r" "key r = k"
      by (auto simp: set_keys)
    with ok have "cache c k = Some e'" by fastforce
    with h have "e' = e" by simp
    with e' show ?thesis by simp
  qed
  with d b ok show ?R by blast
next
  assume R: ?R
  have "dom (cache c) = set (keys c)"
  proof (rule set_eqI)
    fix k
    show "k \<in> dom (cache c) \<longleftrightarrow> k \<in> set (keys c)"
    proof
      assume "k \<in> dom (cache c)"
      then obtain e where "cache c k = Some e" by auto
      with R show "k \<in> set (keys c)" unfolding set_keys by blast
    next
      assume "k \<in> set (keys c)"
      then obtain e r where "e \<in> set (ll c)" "heap c e = Some r" "key r = k"
        by (auto simp: set_keys)
      with R show "k \<in> dom (cache c)" by fastforce
    qed
  qed
  with R show ?L
    by (fastforce simp: consistent_def entry_ok_def split: option.splits)
qed

lemma consistent_NewLRUCache: "consistent (NewLRUCache n)"
  by (simp add: consistent_iff NewLRUCache_def)

lemma consistent_lookup:
  assumes "consistent c" "cache c k = Some e"
  shows "e \<in> set (ll c) \<and> (\<exists>r. heap c e = Some r \<and> key r = k)"
  using assms unfolding consistent_iff by blast

lemma consistent_elem:
  assumes "consistent c" "e \<in> set (ll c)"
  shows "\<exists>r. heap c e = Some r \<and> cache c (key r) = Some e"
  using assms unfolding consistent_iff by blast

lemma consistent_stats: "consistent (c\<lparr>stats := s\<rparr>) = consistent c"
  by (simp add: consistent_iff)

lemma consistentI:
  assumes "distinct (ll c)"
    and "\<And>e. e \<in> set (ll c) \<Longrightarrow> e < nextElem c"
    and "\<And>e. e \<in> set (ll c) \<Longrightarrow> \<exists>r. heap c e = Some r \<and> cache c (key r) = Some e"
    and "\<And>k e. cache c k = Some e \<Longrightarrow> e \<in> set (ll c) \<and> (\<exists>r. heap c e = Some r \<and> key r = k)"
  shows "consistent c"
  unfolding consistent_iff using assms by blast

lemma consistent_distinct: "consistent c \<Longrightarrow> distinct (ll c)"
  by (simp add: consistent_iff)

lemma consistent_bound: "consistent c \<Longrightarrow> e \<in> set (ll c) \<Longrightarrow> e < nextElem c"
  by (simp add: consistent_iff)


lemma consistent_remove:
  assumes c: "consistent c" and k: "cache c k = Some e"
  shows "consistent (c\<lparr>ll := remove1 e (ll c), cache := (cache c)(k := None)\<rparr>)"
proof (rule consistentI)
  from consistent_lookup [OF c k]
  obtain r where r: "e \<in> set (ll c)" "heap c e = Some r" "key r = k"
    by auto
  have d: "distinct (ll c)" using c by (rule consistent_distinct)
  let ?c = "c\<lparr>ll := remove1 e (ll c), cache := (cache c)(k := None)\<rparr>"
  show "distinct (ll ?c)" using d by simp
  show "e' < nextElem ?c" if "e' \<in> set (ll ?c)" for e'
    using that d consistent_bound [OF c, of e'] by simp
  show "\<exists>r. heap ?c e' = Some r \<and> cache ?c (key r) = Some e'" if "e' \<in> set (ll ?c)" for e'
  proof -
    from that d have e': "e' \<in> set (ll c)" "e' \<noteq> e" by auto
    from consistent_elem [OF c e'(1)]
    obtain r' where r': "heap c e' = Some r'" "cache c (key r') = Some e'"
      by auto
    with k e' have "key r' \<noteq> k" by auto
    with r' show ?thesis by simp
  qed
  show "e' \<in> set (ll ?c) \<and> (\<exists>r. heap ?c e' = Some r \<and> key r = k')"
    if "cache ?c k' = Some e'" for k' e'
  proof -
    from that have k': "k' \<noteq> k" "cache c k' = Some e'" by (auto split: if_splits)
    from consistent_lookup [OF c k'(2)]
    obtain r' where r': "e' \<in> set (ll c)" "heap c e' = Some r'" "key r' = k'"
      by auto
    with r k' have "e' \<noteq> e" by auto
    with r' d show ?thesis by simp
  qed
qed

lemma consistent_front:
  assumes c: "consistent c" and e: "e \<in> set (ll c)"
  shows "consistent (c\<lparr>ll := e # remove1 e (ll c)\<rparr>)"
proof (rule consistentI)
  have d: "distinct (ll c)" using c by (rule consistent_distinct)
  have s: "set (e # remove1 e (ll c)) = set (ll c)" using d e by auto
  let ?c = "c\<lparr>ll := e # remove1 e (ll c)\<rparr>"
  have l: "set (ll ?c) = set (ll c)" using s by simp
  show "distinct (ll ?c)" using d by simp
  show "e' < nextElem ?c" if "e' \<in> set (ll ?c)" for e'
    using that consistent_bound [OF c, of e'] unfolding l by simp
  show "\<exists>r. heap ?c e' = Some r \<and> cache ?c (key r) = Some e'" if "e' \<in> set (ll ?c)" for e'
    using that consistent_elem [OF c, of e'] unfolding l by simp
  show "e' \<in> set (ll ?c) \<and> (\<exists>r. heap ?c e' = Some r \<and> key r = k')"
    if "cache ?c k' = Some e'" for k' e'
    using that consistent_lookup [OF c, of k' e'] unfolding l by simp
qed

lemma consistent_heap:
  assumes c: "consistent c" and h: "heap c e = Some r0" and kr: "key r = key r0"
  shows "consistent (c\<lparr>heap := (heap c)(e \<mapsto> r)\<rparr>)"
proof (rule consistentI)
  let ?c = "c\<lparr>heap := (heap c)(e \<mapsto> r)\<rparr>"
  show "distinct (ll ?c)" using consistent_distinct [OF c] by simp
  show "e' < nextElem ?c" if "e' \<in> set (ll ?c)" for e'
    using that consistent_bound [OF c, of e'] by simp
  show "\<exists>r. heap ?c e' = Some r \<and> cache ?c (key r) = Some e'" if "e' \<in> set (ll ?c)" for e'
    using that consistent_elem [OF c, of e'] h kr by (cases "e' = e") auto
  show "e' \<in> set (ll ?c) \<and> (\<exists>r. heap ?c e' = Some r \<and> key r = k')"
    if "cache ?c k' = Some e'" for k' e'
    using that consistent_lookup [OF c, of k' e'] h kr by (cases "e' = e") auto
qed

lemma consistent_push:
  assumes c: "consistent c" and k: "cache c (key r) = None"
  shows "consistent (c\<lparr>ll := nextElem c # ll c, heap := (heap c)(nextElem c \<mapsto> r),
            nextElem := Suc (nextElem c), cache := (cache c)(key r \<mapsto> nextElem c)\<rparr>)"
proof (rule consistentI)
  let ?c = "c\<lparr>ll := nextElem c # ll c, heap := (heap c)(nextElem c \<mapsto> r),
            nextElem := Suc (nextElem c), cache := (cache c)(key r \<mapsto> nextElem c)\<rparr>"
  have n: "nextElem c \<notin> set (ll c)" using consistent_bound [OF c, of "nextElem c"] by auto
  show "distinct (ll ?c)" using consistent_distinct [OF c] n by simp
  show "e' < nextElem ?c" if "e' \<in> set (ll ?c)" for e'
    using that consistent_bound [OF c, of e'] by auto
  show "\<exists>r. heap ?c e' = Some r \<and> cache ?c (key r) = Some e'" if "e' \<in> set (ll ?c)" for e'
  proof (cases "e' = nextElem c")
    case True
    then show ?thesis by simp
  next
    case False
    with that have "e' \<in> set (ll c)" by simp
    from consistent_elem [OF c this]
    obtain r' where r': "heap c e' = Some r'" "cache c (key r') = Some e'"
      by auto
    with k have "key r' \<noteq> key r" by auto
    with r' False show ?thesis by simp
  qed
  show "e' \<in> set (ll ?c) \<and> (\<exists>r. heap ?c e' = Some r \<and> key r = k')"
    if "cache ?c k' = Some e'" for k' e'
  proof (cases "k' = key r")
    case True
    with that show ?thesis by simp
  next
    case False
    with that have "cache c k' = Some e'" by simp
    from consistent_lookup [OF c this]
    obtain r' where r': "e' \<in> set (ll c)" "heap c e' = Some r'" "key r' = k'"
      by auto
    with n have "e' \<noteq> nextElem c" by auto
    with r' show ?thesis by simp
  qed
qed

lemma removeElement_eq:
  "heap c e = Some r \<Longrightarrow>
   removeElement c e = Inr (c\<lparr>ll := remove1 e (ll c), cache := (cache c)(key r := None)\<rparr>)"
  by (simp add: removeElement_def list_Remove_def)

lemma remove1_last: "distinct l \<Longrightarrow> l \<noteq> [] \<Longrightarrow> remove1 (last l) l = butlast l"
  by (induction l) (auto simp: remove1_idem)

lemma addRecord_present:
  assumes c: "consistent c" and k: "cache c (key r) = Some e"
  shows "addRecord c r = Inr (True, c\<lparr>ll := e # remove1 e (ll c), heap := (heap c)(e \<mapsto> r)\<rparr>)"
proof -
  from consistent_lookup [OF c k] obtain r0 where "e \<in> set (ll c)" "heap c e = Some r0"
    by auto
  with k show ?thesis by (simp add: addRecord_def list_MoveToFront_def)
qed

lemma consistent_addRecord_present:
  assumes c: "consistent c" and k: "cache c (key r) = Some e"
  shows "consistent (c\<lparr>ll := e # remove1 e (ll c), heap := (heap c)(e \<mapsto> r)\<rparr>)"
proof -
  from consistent_lookup [OF c k] obtain r0 where e: "e \<in> set (ll c)" "heap c e = Some r0" "key r0 = key r"
    by auto
  have 1: "consistent (c\<lparr>ll := e # remove1 e (ll c)\<rparr>)"
    using c e(1) by (rule consistent_front)
  show ?thesis using consistent_heap [OF 1, of e r0 r] e by simp
qed

lemma addRecord_absent_keep:
  assumes "cache c (key r) = None" "cacheSize c = 0 \<or> int (length (ll c)) + 1 \<le> cacheSize c"
  shows "addRecord c r = Inr (False, pushed c r)"
  using assms by (auto simp: addRecord_def list_PushFront_def list_Len_def Let_def pushed_def)

lemma consistent_pushed:
  "consistent c \<Longrightarrow> cache c (key r) = None \<Longrightarrow> consistent (pushed c r)"
  unfolding pushed_def by (rule consistent_push)

lemma pushed_last:
  assumes c: "consistent c" and k: "cache c (key r) = None"
  shows "\<exists>kv. heap (pushed c r) (last (nextElem c # ll c)) = Some kv \<and>
           cache (pushed c r) (key kv) = Some (last (nextElem c # ll c))"
proof -
  have "last (nextElem c # ll c) \<in> set (ll (pushed c r))" unfolding pushed_def by simp
  from consistent_elem [OF consistent_pushed [OF c k] this] show ?thesis .
qed

lemma pushed_remove1_last:
  assumes c: "consistent c"
  shows "remove1 (last (nextElem c # ll c)) (nextElem c # ll c) = butlast (nextElem c # ll c)"
proof -
  have "nextElem c \<notin> set (ll c)" using consistent_bound [OF c, of "nextElem c"] by auto
  then have "distinct (nextElem c # ll c)" using consistent_distinct [OF c] by simp
  then show ?thesis by (intro remove1_last) simp_all
qed

lemma addRecord_absent_evict:
  assumes c: "consistent c" and k: "cache c (key r) = None"
    and z: "cacheSize c \<noteq> 0" and f: "int (length (ll c)) + 1 > cacheSize c"
    and kv: "heap (pushed c r) (last (nextElem c # ll c)) = Some kv"
  shows "addRecord c r = Inr (False, (pushed c r)\<lparr>ll := butlast (nextElem c # ll c),
                                    cache := (cache (pushed c r))(key kv := None)\<rparr>)"
proof -
  have "removeOldest (pushed c r) = Inr ((pushed c r)\<lparr>ll := butlast (nextElem c # ll c),
                                    cache := (cache (pushed c r))(key kv := None)\<rparr>)"
    using removeElement_eq [OF kv] pushed_remove1_last [OF c] kv
    by (simp add: removeOldest_def list_Back_def pushed_def)
  then show ?thesis
    using k z f
    by (simp add: addRecord_def list_PushFront_def list_Len_def Let_def pushed_def)
qed

lemma Get_absent:
  "cache c k = None \<Longrightarrow>
   Get c k t = Inr (None, c\<lparr>stats := (stats c)\<lparr>Miss := Miss (stats c) + 1\<rparr>\<rparr>)"
  by (simp add: Get_def)

lemma Get_expired:
  assumes "cache c k = Some e" "heap c e = Some r" "expireAt r < MillisecondNow t"
  shows "Get c k t = Inr (None, c\<lparr>ll := remove1 e (ll c), cache := (cache c)(key r := None),
                                 stats := (stats c)\<lparr>Miss := Miss (stats c) + 1\<rparr>\<rparr>)"
  using assms by (simp add: Get_def removeElement_eq)

lemma Get_hit:
  assumes "cache c k = Some e" "heap c e = Some r" "\<not> expireAt r < MillisecondNow t"
  shows "Get c k t = Inr (Some (value' r),
           c\<lparr>stats := (stats c)\<lparr>Hit := Hit (stats c) + 1\<rparr>, ll := list_MoveToFront (ll c) e\<rparr>)"
  using assms by (simp add: Get_def)

lemma Remove_present:
  assumes "cache c k = Some e" "heap c e = Some r"
  shows "Remove c k = Inr (c\<lparr>ll := remove1 e (ll c), cache := (cache c)(key r := None)\<rparr>)"
  using assms by (simp add: Remove_def removeElement_eq)

lemma Remove_absent: "cache c k = None \<Longrightarrow> Remove c k = Inr c"
  by (simp add: Remove_def)

lemma UpdateExpiration_present:
  assumes "cache c k = Some e" "heap c e = Some r"
  shows "UpdateExpiration c k x = Inr (True, c\<lparr>heap := (heap c)(e \<mapsto> r\<lparr>expireAt := x\<rparr>)\<rparr>)"
  using assms by (simp add: UpdateExpiration_def)

lemma UpdateExpiration_absent: "cache c k = None \<Longrightarrow> UpdateExpiration c k x = Inr (False, c)"
  by (simp add: UpdateExpiration_def)

lemma addRecord_consistent:
  assumes c: "consistent c"
  shows "\<exists>b c'. addRecord c r = Inr (b, c') \<and> consistent c' \<and>
           cacheSize c' = cacheSize c \<and> stats c' = stats c"
proof (cases "cache c (key r)")
  case (Some e)
  show ?thesis
    using addRecord_present [OF c Some] consistent_addRecord_present [OF c Some] by auto
next
  case None
  have p: "consistent (pushed c r)" unfolding pushed_def using c None by (rule consistent_push)
  show ?thesis
  proof (cases "cacheSize c = 0 \<or> int (length (ll c)) + 1 \<le> cacheSize c")
    case True
    show ?thesis using addRecord_absent_keep [OF None True] p by (auto simp: pushed_def)
  next
    case False
    then have z: "cacheSize c \<noteq> 0" and f: "int (length (ll c)) + 1 > cacheSize c" by auto
    from pushed_last [OF c None] obtain kv where
      kv: "heap (pushed c r) (last (nextElem c # ll c)) = Some kv"
          "cache (pushed c r) (key kv) = Some (last (nextElem c # ll c))" by auto
    have "consistent ((pushed c r)\<lparr>ll := butlast (nextElem c # ll c),
                                    cache := (cache (pushed c r))(key kv := None)\<rparr>)"
      using consistent_remove [OF p kv(2)] pushed_remove1_last [OF c] by (simp add: pushed_def)
    with addRecord_absent_evict [OF c None z f kv(1)] show ?thesis by (auto simp: pushed_def)
  qed
qed

lemma Get_consistent:
  assumes c: "consistent c"
  shows "\<exists>v c'. Get c k t = Inr (v, c') \<and> consistent c' \<and> cacheSize c' = cacheSize c"
proof (cases "cache c k")
  case None
  show ?thesis using Get_absent [OF None] c by (simp add: consistent_stats)
next
  case (Some e)
  from consistent_lookup [OF c Some] obtain r where
    r: "e \<in> set (ll c)" "heap c e = Some r" "key r = k" by auto
  show ?thesis
  proof (cases "expireAt r < MillisecondNow t")
    case True
    have "consistent (c\<lparr>ll := remove1 e (ll c), cache := (cache c)(k := None)\<rparr>)"
      using c Some by (rule consistent_remove)
    then have "consistent (c\<lparr>ll := remove1 e (ll c), cache := (cache c)(k := None),
                 stats := (stats c)\<lparr>Miss := Miss (stats c) + 1\<rparr>\<rparr>)"
      by (simp add: consistent_stats)
    then show ?thesis using Get_expired [OF Some r(2) True] r(3) by simp
  next
    case False
    have "consistent (c\<lparr>stats := (stats c)\<lparr>Hit := Hit (stats c) + 1\<rparr>\<rparr>)"
      using c by (simp add: consistent_stats)
    from consistent_front [OF this, of e] r(1)
    show ?thesis using Get_hit [OF Some r(2) False] by (simp add: list_MoveToFront_def)
  qed
qed

lemma Remove_consistent:
  assumes c: "consistent c"
  shows "\<exists>c'. Remove c k = Inr c' \<and> consistent c' \<and> cacheSize c' = cacheSize c \<and> stats c' = stats c"
proof (cases "cache c k")
  case None
  show ?thesis using Remove_absent [OF None] c by simp
next
  case (Some e)
  from consistent_lookup [OF c Some] obtain r where
    r: "e \<in> set (ll c)" "heap c e = Some r" "key r = k" by auto
  show ?thesis
    using Remove_present [OF Some r(2)] consistent_remove [OF c Some] r(3) by simp
qed

lemma UpdateExpiration_consistent:
  assumes c: "consistent c"
  shows "\<exists>b c'. UpdateExpiration c k x = Inr (b, c') \<and> consistent c' \<and>
           cacheSize c' = cacheSize c \<and> stats c' = stats c"
proof (cases "cache c k")
  case None
  show ?thesis using UpdateExpiration_absent [OF None] c by auto
next
  case (Some e)
  from consistent_lookup [OF c Some] obtain r where
    r: "e \<in> set (ll c)" "heap c e = Some r" "key r = k" by auto
  show ?thesis
    using UpdateExpiration_present [OF Some r(2)]
      consistent_heap [OF c r(2), of "r\<lparr>expireAt := x\<rparr>"] by auto
qed

lemma do_call_consistent:
  assumes c: "consistent c"
  shows "\<exists>r c'. do_call c x = Inr (r, c') \<and> consistent c' \<and> cacheSize c' = cacheSize c"
proof (cases x)
  case (CallAdd k v e)
  from addRecord_consistent [OF c, of "\<lparr>key = k, value' = v, expireAt = e\<rparr>"]
  show ?thesis using CallAdd by (auto simp: Add_def)
next
  case (CallGet k t)
  from Get_consistent [OF c, of k t] show ?thesis using CallGet by auto
next
  case (CallRemove k)
  from Remove_consistent [OF c, of k] show ?thesis using CallRemove by auto
next
  case (CallUpdateExpiration k e)
  from UpdateExpiration_consistent [OF c, of k e] show ?thesis
    using CallUpdateExpiration by auto
qed

lemma run_consistent:
  "consistent c \<Longrightarrow>
   \<exists>rs c'. run c xs = Inr (rs, c') \<and> consistent c' \<and> cacheSize c' = cacheSize c \<and>
     length rs = length xs"
proof (induction xs arbitrary: c)
  case Nil
  then show ?case by simp
next
  case (Cons x xs)
  from do_call_consistent [OF Cons.prems, of x] obtain r c1 where
    1: "do_call c x = Inr (r, c1)" "consistent c1" "cacheSize c1 = cacheSize c" by blast
  from Cons.IH [OF 1(2)] obtain rs c2 where
    2: "run c1 xs = Inr (rs, c2)" "consistent c2" "cacheSize c2 = cacheSize c1"
       "length rs = length xs" by blast
  from 1 2 show ?case by simp
qed

lemma consistent_ab_cache: "consistent ab_cache"
  by (simp add: consistent_def ab_cache_def entry_ok_def keys_def map_filter_def)

lemma keys_map:
  assumes c: "consistent c"
  shows "keys c = map (\<lambda>e. key (the (heap c e))) (ll c)"
proof -
  have h: "\<exists>r. heap c e = Some r" if "e \<in> set (ll c)" for e
    using consistent_elem [OF c that] by auto
  have "filter (\<lambda>e. map_option key (heap c e) \<noteq> None) (ll c) = ll c"
    using h by (auto simp: filter_id_conv)
  then have "keys c = map (the \<circ> (\<lambda>e. map_option key (heap c e))) (ll c)"
    by (simp add: keys_def map_filter_def)
  also have "\<dots> = map (\<lambda>e. key (the (heap c e))) (ll c)"
  proof (rule map_cong [OF refl])
    fix e
    assume "e \<in> set (ll c)"
    from h [OF this] obtain r where "heap c e = Some r" by auto
    then show "(the \<circ> (\<lambda>e. map_option key (heap c e))) e = key (the (heap c e))" by simp
  qed
  finally show ?thesis .
qed

lemma length_keys: "consistent c \<Longrightarrow> length (keys c) = length (ll c)"
  by (simp add: keys_map)

lemma distinct_keys:
  assumes c: "consistent c"
  shows "distinct (keys c)"
proof -
  have "inj_on (\<lambda>e. key (the (heap c e))) (set (ll c))"
  proof (rule inj_onI)
    fix a b
    assume a: "a \<in> set (ll c)" and b: "b \<in> set (ll c)"
      and eq: "key (the (heap c a)) = key (the (heap c b))"
    from consistent_elem [OF c a] have "cache c (key (the (heap c a))) = Some a" by auto
    moreover from consistent_elem [OF c b] have "cache c (key (the (heap c b))) = Some b" by auto
    ultimately show "a = b" using eq by (metis option.inject)
  qed
  then show ?thesis using consistent_distinct [OF c] by (simp add: keys_map [OF c] distinct_map)
qed

lemma dom_cache_keys: "consistent c \<Longrightarrow> dom (cache c) = set (keys c)"
  by (simp add: consistent_def)

lemma card_dom_cache:
  assumes c: "consistent c"
  shows "card (dom (cache c)) = length (ll c)"
  using distinct_card [OF distinct_keys [OF c]] by (simp add: dom_cache_keys [OF c] length_keys [OF c])

lemma one_key_per_elem:
  assumes c: "consistent c" and e: "e \<in> set (ll c)"
  shows "\<exists>!k. cache c k = Some e"
proof -
  from consistent_elem [OF c e] obtain r where r: "heap c e = Some r" "cache c (key r) = Some e"
    by auto
  have "k = key r" if "cache c k = Some e" for k
    using consistent_lookup [OF c that] r(1) by auto
  with r(2) show ?thesis by (intro ex1I [of _ "key r"])
qed

lemma Get_stats:
  assumes "Get c k t = Inr (v, c')"
  shows "(v \<noteq> None \<and> Hit (stats c') = Hit (stats c) + 1 \<and> Miss (stats c') = Miss (stats c)) \<or>
         (v = None \<and> Hit (stats c') = Hit (stats c) \<and> Miss (stats c') = Miss (stats c) + 1)"
  using assms
  by (auto simp: Get_def removeElement_def split: option.splits if_splits)

lemma removeElement_stats: "removeElement c e = Inr c' \<Longrightarrow> stats c' = stats c"
  by (auto simp: removeElement_def split: option.splits)

lemma addRecord_stats: "addRecord c r = Inr (b, c') \<Longrightarrow> stats c' = stats c"
  by (auto simp: addRecord_def removeOldest_def Let_def
      split: option.splits if_splits sum.splits dest: removeElement_stats)

lemma Remove_stats: "Remove c k = Inr c' \<Longrightarrow> stats c' = stats c"
  by (auto simp: Remove_def split: option.splits dest: removeElement_stats)

lemma UpdateExpiration_stats: "UpdateExpiration c k x = Inr (b, c') \<Longrightarrow> stats c' = stats c"
  by (auto simp: UpdateExpiration_def split: option.splits)

lemma do_call_stats:
  assumes "do_call c x = Inr (r, c')"
  shows "if is_Get x
         then (is_hit r \<and> \<not> is_miss r \<and>
                 Hit (stats c') = Hit (stats c) + 1 \<and> Miss (stats c') = Miss (stats c)) \<or>
              (is_miss r \<and> \<not> is_hit r \<and>
                 Hit (stats c') = Hit (stats c) \<and> Miss (stats c') = Miss (stats c) + 1)
         else \<not> is_hit r \<and> \<not> is_miss r \<and> stats c' = stats c"
proof (cases x)
  case (CallAdd k v e)
  with assms show ?thesis
    by (auto simp: Add_def split: sum.splits dest: addRecord_stats)
next
  case (CallGet k t)
  with assms obtain v where "Get c k t = Inr (v, c')" "r = RetGet v"
    by (auto split: sum.splits)
  with Get_stats [of c k t v c'] CallGet show ?thesis by (cases v) auto
next
  case (CallRemove k)
  with assms show ?thesis by (auto split: sum.splits dest: Remove_stats)
next
  case (CallUpdateExpiration k e)
  with assms show ?thesis by (auto split: sum.splits dest: UpdateExpiration_stats)
qed

lemma run_stats:
  "run c xs = Inr (rs, c') \<Longrightarrow>
   Hit (stats c') = Hit (stats c) + int (hits rs) \<and>
   Miss (stats c') = Miss (stats c) + int (misses rs) \<and>
   hits rs + misses rs = length (filter is_Get xs) \<and> length rs = length xs"
proof (induction xs arbitrary: c rs)
  case Nil
  then show ?case by (simp add: hits_def misses_def)
next
  case (Cons x xs)
  from Cons.prems obtain r c1 rs1 where
    1: "do_call c x = Inr (r, c1)" and 2: "run c1 xs = Inr (rs1, c')" and 3: "rs = r # rs1"
    by (auto split: sum.splits)
  from Cons.IH [OF 2] do_call_stats [OF 1] 3 show ?case
    by (auto simp: hits_def misses_def split: if_splits)
qed

lemma neg_do_call:
  assumes "cacheSize c < 0" "ll c = []" "cache c = Map.empty"
  shows "\<exists>r c'. do_call c x = Inr (r, c') \<and> cacheSize c' = cacheSize c \<and> ll c' = [] \<and>
           cache c' = Map.empty \<and> \<not> is_hit r"
proof (cases x)
  case (CallAdd k v e)
  with assms show ?thesis
    by (simp add: Add_def addRecord_def removeOldest_def removeElement_def list_PushFront_def
        list_Len_def list_Back_def list_Remove_def Let_def)
next
  case (CallGet k t)
  with assms show ?thesis by (simp add: Get_def)
next
  case (CallRemove k)
  with assms show ?thesis by (simp add: Remove_def)
next
  case (CallUpdateExpiration k e)
  with assms show ?thesis by (simp add: UpdateExpiration_def)
qed

lemma neg_run:
  assumes "cacheSize c < 0" "ll c = []" "cache c = Map.empty"
  shows "\<exists>rs c'. run c xs = Inr (rs, c') \<and> cacheSize c' = cacheSize c \<and> ll c' = [] \<and>
           cache c' = Map.empty \<and> hits rs = 0"
  using assms
proof (induction xs arbitrary: c)
  case Nil
  then show ?case by (simp add: hits_def)
next
  case (Cons x xs)
  from neg_do_call [OF Cons.prems, of x] obtain r c1 where
    1: "do_call c x = Inr (r, c1)" "cacheSize c1 = cacheSize c" "ll c1 = []"
       "cache c1 = Map.empty" "\<not> is_hit r" by auto
  from Cons.IH [of c1] 1 Cons.prems(1) obtain rs c2 where
    2: "run c1 xs = Inr (rs, c2)" "cacheSize c2 = cacheSize c1" "ll c2 = []"
       "cache c2 = Map.empty" "hits rs = 0" by auto
  from 1 2 show ?case by (simp add: hits_def)
qed

lemma addRecord_absent_size:
  assumes c: "consistent c" and k: "cache c (key r) = None"
    and p: "0 < cacheSize c" and s: "Size c \<le> cacheSize c"
  shows "\<exists>c'. addRecord c r = Inr (False, c') \<and> consistent c' \<and> cacheSize c' = cacheSize c \<and>
           Size c' = min (cacheSize c) (Size c + 1) \<and>
           dom (cache c') \<subseteq> insert (key r) (dom (cache c))"
proof (cases "int (length (ll c)) + 1 \<le> cacheSize c")
  case True
  then have "cacheSize c = 0 \<or> int (length (ll c)) + 1 \<le> cacheSize c" by simp
  from addRecord_absent_keep [OF k this] consistent_pushed [OF c k] True
  show ?thesis by (simp add: pushed_def Size_def list_Len_def)
next
  case False
  then have f: "int (length (ll c)) + 1 > cacheSize c" by simp
  from p have z: "cacheSize c \<noteq> 0" by simp
  from pushed_last [OF c k] obtain kv where
    kv: "heap (pushed c r) (last (nextElem c # ll c)) = Some kv"
        "cache (pushed c r) (key kv) = Some (last (nextElem c # ll c))" by auto
  let ?c' = "(pushed c r)\<lparr>ll := butlast (nextElem c # ll c),
               cache := (cache (pushed c r))(key kv := None)\<rparr>"
  have a: "addRecord c r = Inr (False, ?c')"
    using c k z f kv(1) by (rule addRecord_absent_evict)
  have "consistent ?c'"
    using consistent_remove [OF consistent_pushed [OF c k] kv(2)] pushed_remove1_last [OF c]
    by (simp add: pushed_def)
  moreover have "Size ?c' = min (cacheSize c) (Size c + 1)"
  proof -
    have "length (butlast (nextElem c # ll c)) = length (ll c)" by (simp del: butlast.simps)
    then have "Size ?c' = Size c" by (simp add: Size_def list_Len_def del: butlast.simps)
    moreover have "Size c = cacheSize c" using f s by (simp add: Size_def list_Len_def)
    ultimately show ?thesis by simp
  qed
  moreover have "dom (cache ?c') \<subseteq> insert (key r) (dom (cache c))"
    by (auto simp: pushed_def split: if_splits)
  ultimately show ?thesis using a by (simp add: pushed_def)
qed

lemma run_adds_fresh:
  assumes "consistent c" and "0 < cacheSize c" and "Size c \<le> cacheSize c"
    and "distinct ks" and "set ks \<inter> dom (cache c) = {}"
  shows "\<exists>rs c'. run c (map (\<lambda>k. CallAdd k v e) ks) = Inr (rs, c') \<and> consistent c' \<and>
           cacheSize c' = cacheSize c \<and>
           Size c' = min (cacheSize c) (Size c + int (length ks)) \<and>
           dom (cache c') \<subseteq> dom (cache c) \<union> set ks"
  using assms
proof (induction ks arbitrary: c)
  case Nil
  then show ?case by simp
next
  case (Cons k ks)
  let ?r = "\<lparr>key = k, value' = v, expireAt = e\<rparr>"
  from Cons.prems have k: "cache c (key ?r) = None" by auto
  from addRecord_absent_size [OF Cons.prems(1) k Cons.prems(2,3)] obtain c1 where
    1: "addRecord c ?r = Inr (False, c1)" "consistent c1" "cacheSize c1 = cacheSize c"
       "Size c1 = min (cacheSize c) (Size c + 1)"
       "dom (cache c1) \<subseteq> insert k (dom (cache c))" by auto
  have "set ks \<inter> dom (cache c1) = {}" using 1(5) Cons.prems(4,5) by auto
  moreover have "Size c1 \<le> cacheSize c1" "0 < cacheSize c1" using 1(3,4) Cons.prems(2) by auto
  moreover have "distinct ks" using Cons.prems(4) by simp
  ultimately obtain rs c2 where
    2: "run c1 (map (\<lambda>k. CallAdd k v e) ks) = Inr (rs, c2)" "consistent c2"
       "cacheSize c2 = cacheSize c1"
       "Size c2 = min (cacheSize c1) (Size c1 + int (length ks))"
       "dom (cache c2) \<subseteq> dom (cache c1) \<union> set ks"
    using Cons.IH [OF 1(2)] by blast
  have "run c (map (\<lambda>k. CallAdd k v e) (k # ks)) = Inr (RetAdd False # rs, c2)"
    using 1(1) 2(1) by (simp add: Add_def)
  moreover have "Size c2 = min (cacheSize c) (Size c + int (length (k # ks)))"
    using 2(4) 1(3,4) by auto
  moreover have "dom (cache c2) \<subseteq> dom (cache c) \<union> set (k # ks)"
    using 2(5) 1(5) by auto
  ultimately show ?case using 2(2,3) 1(3) by auto
qed

lemma map_remove1_inj:
  "inj_on f (set xs) \<Longrightarrow> x \<in> set xs \<Longrightarrow> map f (remove1 x xs) = remove1 (f x) (map f xs)"
proof (induction xs)
  case Nil
  then show ?case by simp
next
  case (Cons y ys)
  show ?case
  proof (cases "x = y")
    case True
    then show ?thesis by simp
  next
    case False
    with Cons.prems have "f x \<noteq> f y" "x \<in> set ys" "inj_on f (set ys)"
      by (auto simp: inj_on_def)
    with Cons.IH False show ?thesis by simp
  qed
qed

lemma keys_inj:
  assumes c: "consistent c"
  shows "inj_on (\<lambda>e. key (the (heap c e))) (set (ll c))"
proof (rule inj_onI)
  fix a b
  assume a: "a \<in> set (ll c)" and b: "b \<in> set (ll c)"
    and eq: "key (the (heap c a)) = key (the (heap c b))"
  from consistent_elem [OF c a] have "cache c (key (the (heap c a))) = Some a" by auto
  moreover from consistent_elem [OF c b] have "cache c (key (the (heap c b))) = Some b" by auto
  ultimately show "a = b" using eq by (metis option.inject)
qed

lemma keys_remove:
  assumes c: "consistent c" and k: "cache c k = Some e"
  shows "keys (c\<lparr>ll := remove1 e (ll c), cache := (cache c)(k := None)\<rparr>) = remove1 k (keys c)"
proof -
  from consistent_lookup [OF c k] obtain r where
    r: "e \<in> set (ll c)" "heap c e = Some r" "key r = k" by auto
  have "keys (c\<lparr>ll := remove1 e (ll c), cache := (cache c)(k := None)\<rparr>) =
        map (\<lambda>e. key (the (heap c e))) (remove1 e (ll c))"
    using keys_map [OF consistent_remove [OF c k]] by simp
  also have "\<dots> = remove1 (key (the (heap c e))) (map (\<lambda>e. key (the (heap c e))) (ll c))"
    using keys_inj [OF c] r(1) by (rule map_remove1_inj)
  finally show ?thesis using r keys_map [OF c] by simp
qed

lemma keys_front:
  assumes c: "consistent c" and k: "cache c k = Some e"
  shows "keys (c\<lparr>ll := e # remove1 e (ll c)\<rparr>) = k # remove1 k (keys c)"
proof -
  from consistent_lookup [OF c k] obtain r where
    r: "e \<in> set (ll c)" "heap c e = Some r" "key r = k" by auto
  have "keys (c\<lparr>ll := e # remove1 e (ll c)\<rparr>) =
        map (\<lambda>e. key (the (heap c e))) (e # remove1 e (ll c))"
    using keys_map [OF consistent_front [OF c r(1)]] by simp
  also have "\<dots> = k # map (\<lambda>e. key (the (heap c e))) (remove1 e (ll c))"
    using r by simp
  also have "map (\<lambda>e. key (the (heap c e))) (remove1 e (ll c)) =
             remove1 (key (the (heap c e))) (map (\<lambda>e. key (the (heap c e))) (ll c))"
    using keys_inj [OF c] r(1) by (rule map_remove1_inj)
  finally show ?thesis using r keys_map [OF c] by simp
qed

lemma keys_heap:
  assumes c: "consistent c" and h: "heap c e = Some r0" and kr: "key r = key r0"
  shows "keys (c\<lparr>heap := (heap c)(e \<mapsto> r)\<rparr>) = keys c"
proof -
  have "keys (c\<lparr>heap := (heap c)(e \<mapsto> r)\<rparr>) =
        map (\<lambda>e'. key (the (((heap c)(e \<mapsto> r)) e'))) (ll c)"
    using keys_map [OF consistent_heap [OF c h kr]] by simp
  also have "\<dots> = map (\<lambda>e. key (the (heap c e))) (ll c)"
    using h kr by (intro map_cong) auto
  finally show ?thesis using keys_map [OF c] by simp
qed

lemma keys_stats: "keys (c\<lparr>stats := s\<rparr>) = keys c"
  by (simp add: keys_def)

lemma keys_pushed:
  assumes c: "consistent c" and k: "cache c (key r) = None"
  shows "keys (pushed c r) = key r # keys c"
proof -
  have n: "nextElem c \<notin> set (ll c)" using consistent_bound [OF c, of "nextElem c"] by auto
  have "keys (pushed c r) = map (\<lambda>e. key (the (heap (pushed c r) e))) (ll (pushed c r))"
    using consistent_pushed [OF c k] by (rule keys_map)
  also have "\<dots> = key r # map (\<lambda>e. key (the (((heap c)(nextElem c \<mapsto> r)) e))) (ll c)"
    by (simp add: pushed_def)
  also have "map (\<lambda>e. key (the (((heap c)(nextElem c \<mapsto> r)) e))) (ll c) =
             map (\<lambda>e. key (the (heap c e))) (ll c)"
    using n by (intro map_cong) auto
  finally show ?thesis using keys_map [OF c] by simp
qed

lemma keys_evicted:
  assumes c: "consistent c" and k: "cache c (key r) = None"
    and kv: "heap (pushed c r) (last (nextElem c # ll c)) = Some kv"
  shows "keys ((pushed c r)\<lparr>ll := butlast (nextElem c # ll c),
                 cache := (cache (pushed c r))(key kv := None)\<rparr>) = butlast (key r # keys c)"
proof -
  have p: "consistent (pushed c r)" using c k by (rule consistent_pushed)
  have "last (nextElem c # ll c) \<in> set (ll (pushed c r))" unfolding pushed_def by simp
  from consistent_elem [OF p this] kv
  have kv2: "cache (pushed c r) (key kv) = Some (last (nextElem c # ll c))" by simp
  let ?c' = "(pushed c r)\<lparr>ll := butlast (nextElem c # ll c),
                 cache := (cache (pushed c r))(key kv := None)\<rparr>"
  have c': "consistent ?c'"
    using consistent_remove [OF p kv2] pushed_remove1_last [OF c] by (simp add: pushed_def)
  have "keys ?c' = map (\<lambda>e. key (the (heap (pushed c r) e))) (butlast (ll (pushed c r)))"
    using keys_map [OF c'] by (simp add: pushed_def)
  also have "\<dots> = butlast (keys (pushed c r))"
    using keys_map [OF p] by (simp add: map_butlast)
  finally show ?thesis using keys_pushed [OF c k] by simp
qed

lemma recent_distinct: "recent st n ks \<Longrightarrow> distinct ks"
  unfolding recent_def by (induction ks) auto

lemma recent_remove1: "recent st n ks \<Longrightarrow> recent st n (remove1 k ks)"
proof -
  assume r: "recent st n ks"
  then have "remove1 k ks = filter (\<lambda>a. k \<noteq> a) ks"
    using recent_distinct [OF r] by (simp add: distinct_remove1_removeAll removeAll_filter_not_eq)
  with r show ?thesis by (auto simp: recent_def sorted_wrt_filter)
qed

lemma recent_butlast: "recent st n ks \<Longrightarrow> recent st n (butlast ks)"
  unfolding recent_def
  by (auto simp: butlast_conv_take dest: in_set_takeD)

lemma recent_touch:
  assumes "recent st n ks" "k \<notin> set ks"
  shows "recent (st(k := Suc n)) (Suc n) (k # ks)"
proof -
  have "sorted_wrt (\<lambda>a b. (st(k := Suc n)) b < (st(k := Suc n)) a) ks"
    using assms by (auto simp: recent_def elim!: sorted_wrt_mono_rel [rotated])
  then show ?thesis using assms by (auto simp: recent_def)
qed

lemma recent_Suc: "recent st n ks \<Longrightarrow> recent st (Suc n) ks"
  by (auto simp: recent_def)

lemma recent_front:
  assumes "recent st n ks"
  shows "recent (st(k := Suc n)) (Suc n) (k # remove1 k ks)"
proof -
  have "k \<notin> set (remove1 k ks)" using recent_distinct [OF assms] by simp
  with recent_remove1 [OF assms] show ?thesis by (rule recent_touch)
qed

lemma absent_not_in_keys: "consistent c \<Longrightarrow> (cache c k = None) = (k \<notin> set (keys c))"
  using dom_cache_keys [of c] by (metis domIff)

lemma addRecord_keys:
  assumes c: "consistent c" and a: "addRecord c r = Inr (b, c')"
  shows "keys c' =
           (if key r \<in> set (keys c) then key r # remove1 (key r) (keys c)
            else if cacheSize c \<noteq> 0 \<and> cacheSize c < int (length (keys c)) + 1
                 then butlast (key r # keys c)
                 else key r # keys c)"
proof (cases "cache c (key r)")
  case (Some e)
  from consistent_lookup [OF c Some] obtain r0 where
    r0: "e \<in> set (ll c)" "heap c e = Some r0" "key r0 = key r" by auto
  have f: "consistent (c\<lparr>ll := e # remove1 e (ll c)\<rparr>)" using c r0(1) by (rule consistent_front)
  have "keys (c\<lparr>ll := e # remove1 e (ll c), heap := (heap c)(e \<mapsto> r)\<rparr>) =
        keys (c\<lparr>ll := e # remove1 e (ll c)\<rparr>)"
    using keys_heap [OF f, of e r0 r] r0 by simp
  also have "\<dots> = key r # remove1 (key r) (keys c)" using c Some by (rule keys_front)
  finally show ?thesis
    using addRecord_present [OF c Some] a absent_not_in_keys [OF c, of "key r"] Some by simp
next
  case None
  then have n: "key r \<notin> set (keys c)" using absent_not_in_keys [OF c] by simp
  show ?thesis
  proof (cases "cacheSize c = 0 \<or> int (length (ll c)) + 1 \<le> cacheSize c")
    case True
    from addRecord_absent_keep [OF None True] a keys_pushed [OF c None] n True
    show ?thesis by (auto simp: length_keys [OF c])
  next
    case False
    then have z: "cacheSize c \<noteq> 0" and f: "int (length (ll c)) + 1 > cacheSize c" by auto
    from pushed_last [OF c None] obtain kv where
      kv: "heap (pushed c r) (last (nextElem c # ll c)) = Some kv" by auto
    from addRecord_absent_evict [OF c None z f kv] a keys_evicted [OF c None kv] n z f
    show ?thesis by (simp add: length_keys [OF c] del: butlast.simps)
  qed
qed

lemma Get_keys:
  assumes c: "consistent c" and a: "Get c k t = Inr (v, c')"
  shows "keys c' = (if v = None then remove1 k (keys c) else k # remove1 k (keys c))"
proof (cases "cache c k")
  case None
  then have "k \<notin> set (keys c)" using absent_not_in_keys [OF c] by simp
  then have "remove1 k (keys c) = keys c" by (simp add: remove1_idem)
  with Get_absent [OF None, of t] a show ?thesis by (auto simp: keys_stats)
next
  case (Some e)
  from consistent_lookup [OF c Some] obtain r where
    r: "e \<in> set (ll c)" "heap c e = Some r" "key r = k" by auto
  show ?thesis
  proof (cases "expireAt r < MillisecondNow t")
    case True
    have "keys (c\<lparr>ll := remove1 e (ll c), cache := (cache c)(k := None),
                 stats := (stats c)\<lparr>Miss := Miss (stats c) + 1\<rparr>\<rparr>) = remove1 k (keys c)"
      using keys_remove [OF c Some] keys_stats [where c = "c\<lparr>ll := remove1 e (ll c), cache := (cache c)(k := None)\<rparr>"]
      by simp
    with Get_expired [OF Some r(2) True] a r(3) show ?thesis by auto
  next
    case False
    have "keys (c\<lparr>stats := (stats c)\<lparr>Hit := Hit (stats c) + 1\<rparr>, ll := e # remove1 e (ll c)\<rparr>) =
          keys (c\<lparr>ll := e # remove1 e (ll c)\<rparr>)"
      by (simp add: keys_def)
    with keys_front [OF c Some] Get_hit [OF Some r(2) False] a r(1) show ?thesis
      by (auto simp: list_MoveToFront_def)
  qed
qed

lemma Remove_keys:
  assumes c: "consistent c" and a: "Remove c k = Inr c'"
  shows "keys c' = remove1 k (keys c)"
proof (cases "cache c k")
  case None
  then have "k \<notin> set (keys c)" using absent_not_in_keys [OF c] by simp
  then have "remove1 k (keys c) = keys c" by (simp add: remove1_idem)
  with Remove_absent [OF None] a show ?thesis by simp
next
  case (Some e)
  from consistent_lookup [OF c Some] obtain r where
    r: "e \<in> set (ll c)" "heap c e = Some r" "key r = k" by auto
  from Remove_present [OF Some r(2)] a keys_remove [OF c Some] r(3) show ?thesis by simp
qed

lemma UpdateExpiration_keys:
  assumes c: "consistent c" and a: "UpdateExpiration c k x = Inr (b, c')"
  shows "keys c' = keys c"
proof (cases "cache c k")
  case None
  with UpdateExpiration_absent [OF None] a show ?thesis by simp
next
  case (Some e)
  from consistent_lookup [OF c Some] obtain r where
    r: "e \<in> set (ll c)" "heap c e = Some r" "key r = k" by auto
  from UpdateExpiration_present [OF Some r(2), of x] a
    keys_heap [OF c r(2), of "r\<lparr>expireAt := x\<rparr>"] show ?thesis by simp
qed

lemma do_call_recent:
  assumes c: "consistent c" and rc: "recent st n (keys c)" and a: "do_call c x = Inr (r, c')"
  shows "recent (case touched x r of None \<Rightarrow> st | Some k \<Rightarrow> st(k := Suc n)) (Suc n) (keys c')"
proof (cases x)
  case (CallAdd k v e)
  let ?r = "\<lparr>key = k, value' = v, expireAt = e\<rparr>"
  from a CallAdd obtain b where b: "addRecord c ?r = Inr (b, c')"
    by (auto simp: Add_def split: sum.splits)
  have "recent (st(k := Suc n)) (Suc n) (keys c')"
  proof (cases "k \<in> set (keys c)")
    case True
    with addRecord_keys [OF c b] recent_front [OF rc, of k] show ?thesis by simp
  next
    case False
    from recent_touch [OF rc False] have 1: "recent (st(k := Suc n)) (Suc n) (k # keys c)" .
    from recent_butlast [OF 1] 1 addRecord_keys [OF c b] False show ?thesis
      by (simp del: butlast.simps split: if_splits)
  qed
  with CallAdd show ?thesis by simp
next
  case (CallGet k t)
  from a CallGet obtain v where v: "Get c k t = Inr (v, c')" "r = RetGet v"
    by (auto split: sum.splits)
  show ?thesis
  proof (cases v)
    case None
    with Get_keys [OF c v(1)] recent_Suc [OF recent_remove1 [OF rc, of k]] CallGet v(2)
    show ?thesis by simp
  next
    case (Some w)
    with Get_keys [OF c v(1)] recent_front [OF rc, of k] CallGet v(2)
    show ?thesis by simp
  qed
next
  case (CallRemove k)
  from a CallRemove have "Remove c k = Inr c'" by (auto split: sum.splits)
  from Remove_keys [OF c this] recent_Suc [OF recent_remove1 [OF rc, of k]] CallRemove
  show ?thesis by simp
next
  case (CallUpdateExpiration k e)
  from a CallUpdateExpiration obtain b where "UpdateExpiration c k e = Inr (b, c')"
    by (auto split: sum.splits)
  from UpdateExpiration_keys [OF c this] recent_Suc [OF rc] CallUpdateExpiration
  show ?thesis by simp
qed

lemma run_recent:
  assumes "consistent c" and "recent st n (keys c)" and "run c xs = Inr (rs, c')"
  shows "recent (stamp n st xs rs) (n + length xs) (keys c')"
  using assms
proof (induction xs arbitrary: c st n rs)
  case Nil
  then show ?case by simp
next
  case (Cons x xs)
  from Cons.prems(3) obtain r c1 rs1 where
    1: "do_call c x = Inr (r, c1)" and 2: "run c1 xs = Inr (rs1, c')" and 3: "rs = r # rs1"
    by (auto split: sum.splits)
  from do_call_consistent [OF Cons.prems(1), of x] 1 have c1: "consistent c1" by simp
  from Cons.IH [OF c1 do_call_recent [OF Cons.prems(1,2) 1] 2] 3
  show ?case by simp
qed

lemma run_last_touch:
  "\<exists>rs c. run (NewLRUCache n :: ('k, 'v) LRUCache) xs = Inr (rs, c) \<and>
     sorted_wrt (\<lambda>a b. last_touch xs rs b < last_touch xs rs a) (keys c) \<and>
     (\<forall>k \<in> set (keys c). 0 < last_touch xs rs k)"
proof -
  from run_consistent [OF consistent_NewLRUCache, of n xs] obtain rs c where
    r: "run (NewLRUCache n) xs = Inr (rs, c)" by auto
  have "recent (\<lambda>k. 0) 0 (keys (NewLRUCache n :: ('k, 'v) LRUCache))"
    by (simp add: recent_def keys_def NewLRUCache_def map_filter_def)
  from run_recent [OF consistent_NewLRUCache this r] r show ?thesis
    unfolding recent_def last_touch_def by auto
qed

lemma recent_last_least:
  "recent st n ks \<Longrightarrow> k \<in> set ks \<Longrightarrow> st (last ks) \<le> st k"
  unfolding recent_def
proof (induction ks)
  case Nil
  then show ?case by simp
next
  case (Cons a ks)
  show ?case
  proof (cases "ks = []")
    case True
    with Cons.prems show ?thesis by simp
  next
    case False
    then have l: "last ks \<in> set ks" by simp
    from Cons.prems have "st (last ks) < st a" using l by auto
    moreover have "k \<in> set ks \<Longrightarrow> st (last ks) \<le> st k" using Cons by auto
    ultimately show ?thesis using Cons.prems(2) False by auto
  qed
qed

lemma run_new_recent:
  assumes "run (NewLRUCache n :: ('k, 'v) LRUCache) xs = Inr (rs, c)"
  shows "recent (last_touch xs rs) (length xs) (keys c)"
proof -
  have "recent (\<lambda>k. 0) 0 (keys (NewLRUCache n :: ('k, 'v) LRUCache))"
    by (simp add: recent_def keys_def NewLRUCache_def map_filter_def)
  from run_recent [OF consistent_NewLRUCache this assms] show ?thesis
    by (simp add: last_touch_def)
qed

lemma length_MoveToFront: "length (list_MoveToFront l e) = length l"
proof (cases "e \<in> set l")
  case True
  then have "1 \<le> length l" by (cases l) auto
  with True show ?thesis by (simp add: list_MoveToFront_def length_remove1)
next
  case False
  then show ?thesis by (simp add: list_MoveToFront_def)
qed

lemma length_list_Remove: "length (list_Remove l e) \<le> length l"
  by (simp add: list_Remove_def length_remove1)

lemma removeElement_Size:
  "removeElement c e = Inr c' \<Longrightarrow> Size c' \<le> Size c \<and> cacheSize c' = cacheSize c"
  using length_list_Remove [of "ll c" e]
  by (auto simp: removeElement_def Size_def list_Len_def split: option.splits)

lemma Get_Size:
  assumes "Get c k t = Inr (v, c')"
  shows "Size c' \<le> Size c \<and> cacheSize c' = cacheSize c"
proof (cases "cache c k")
  case None
  with assms show ?thesis by (auto simp: Get_def Size_def)
next
  case (Some e)
  show ?thesis
  proof (cases "heap c e")
    case None
    with Some assms show ?thesis by (simp add: Get_def)
  next
    case h: (Some r)
    show ?thesis
    proof (cases "expireAt r < MillisecondNow t")
      case True
      with Some h assms obtain c1 where
        1: "removeElement c e = Inr c1"
        and 2: "c' = c1\<lparr>stats := (stats c1)\<lparr>Miss := Miss (stats c1) + 1\<rparr>\<rparr>"
        by (auto simp: Get_def split: sum.splits)
      from removeElement_Size [OF 1] 2 show ?thesis by (simp add: Size_def)
    next
      case False
      with Some h assms length_MoveToFront [of "ll c" e] show ?thesis
        by (auto simp: Get_def Size_def list_Len_def)
    qed
  qed
qed

lemma Remove_Size:
  "Remove c k = Inr c' \<Longrightarrow> Size c' \<le> Size c \<and> cacheSize c' = cacheSize c"
  by (auto simp: Remove_def split: option.splits dest: removeElement_Size)

lemma UpdateExpiration_Size:
  "UpdateExpiration c k x = Inr (b, c') \<Longrightarrow> Size c' = Size c \<and> cacheSize c' = cacheSize c"
  by (auto simp: UpdateExpiration_def Size_def split: option.splits)

lemma addRecord_bounded:
  assumes c: "consistent c" and p: "0 < cacheSize c" and s: "Size c \<le> cacheSize c"
    and a: "addRecord c r = Inr (b, c')"
  shows "Size c' \<le> cacheSize c \<and> cacheSize c' = cacheSize c"
proof (cases "cache c (key r)")
  case None
  from addRecord_absent_size [OF c None p s] a show ?thesis by auto
next
  case (Some e)
  from addRecord_present [OF c Some] a
  have c': "c' = c\<lparr>ll := e # remove1 e (ll c), heap := (heap c)(e \<mapsto> r)\<rparr>" by simp
  from consistent_lookup [OF c Some] have "e \<in> set (ll c)" by simp
  then have "length (list_MoveToFront (ll c) e) = Suc (length (remove1 e (ll c)))"
    by (simp add: list_MoveToFront_def)
  with length_MoveToFront [of "ll c" e] have "Size c' = Size c"
    unfolding c' by (simp add: Size_def list_Len_def)
  with s c' show ?thesis by simp
qed

lemma do_call_bounded:
  assumes c: "consistent c" and p: "0 < cacheSize c" and s: "Size c \<le> cacheSize c"
    and a: "do_call c x = Inr (r, c')"
  shows "Size c' \<le> cacheSize c \<and> cacheSize c' = cacheSize c"
proof (cases x)
  case (CallAdd k v e)
  with a obtain b where "addRecord c \<lparr>key = k, value' = v, expireAt = e\<rparr> = Inr (b, c')"
    by (auto simp: Add_def split: sum.splits)
  from addRecord_bounded [OF c p s this] show ?thesis .
next
  case (CallGet k t)
  with a obtain v where "Get c k t = Inr (v, c')" by (auto split: sum.splits)
  from Get_Size [OF this] s show ?thesis by simp
next
  case (CallRemove k)
  with a have "Remove c k = Inr c'" by (auto split: sum.splits)
  from Remove_Size [OF this] s show ?thesis by simp
next
  case (CallUpdateExpiration k e)
  with a obtain b where "UpdateExpiration c k e = Inr (b, c')" by (auto split: sum.splits)
  from UpdateExpiration_Size [OF this] s show ?thesis by simp
qed

lemma run_bounded:
  assumes "consistent c" and "0 < cacheSize c" and "Size c \<le> cacheSize c"
    and "run c xs = Inr (rs, c')"
  shows "Size c' \<le> cacheSize c' \<and> cacheSize c' = cacheSize c"
  using assms
proof (induction xs arbitrary: c rs)
  case Nil
  then show ?case by simp
next
  case (Cons x xs)
  from Cons.prems(4) obtain r c1 rs1 where
    1: "do_call c x = Inr (r, c1)" and 2: "run c1 xs = Inr (rs1, c')"
    by (auto split: sum.splits)
  from do_call_consistent [OF Cons.prems(1), of x] 1 have c1: "consistent c1" by simp
  from do_call_bounded [OF Cons.prems(1,2,3) 1]
  have b: "Size c1 \<le> cacheSize c1" "cacheSize c1 = cacheSize c" by simp_all
  from b Cons.prems(2) have "0 < cacheSize c1" by simp
  from Cons.IH [OF c1 this b(1) 2] b(2) show ?case by simp
qed

lemma run_new_bounded:
  assumes "run (NewLRUCache n :: ('k, 'v) LRUCache) xs = Inr (rs, c)" and "0 \<le> n"
  shows "0 < cacheSize c \<and> Size c \<le> cacheSize c \<and> cacheSize c = SetDefault n 50000"
proof -
  let ?c = "NewLRUCache n :: ('k, 'v) LRUCache"
  have "0 < cacheSize ?c" "Size ?c \<le> cacheSize ?c" "cacheSize ?c = SetDefault n 50000"
    using assms(2) by (simp_all add: NewLRUCache_def SetDefault_def Size_def list_Len_def)
  with run_bounded [OF consistent_NewLRUCache this(1,2) assms(1)] show ?thesis by simp
qed

section \<open>The claims\<close>

text \<open>
  C2. In a consistent cache, \<open>Get\<close> of a key that is present with \<open>expireAt\<close>
  strictly below the current millisecond returns not-found, adds one to \<open>Miss\<close>, and
  removes the entry from the list and from the index, so \<open>Size\<close> is one less.
  \<open>Get\<close> of an absent key returns not-found and changes nothing but \<open>Miss\<close>, which
  grows by one.
\<close>

theorem Get_expired_or_absent:
  assumes "consistent c"
  shows "(cache c k = Some e \<and> heap c e = Some r \<and> expireAt r < MillisecondNow t \<longrightarrow>
            Get c k t = Inr (None, c\<lparr>ll := remove1 e (ll c), cache := (cache c)(k := None),
                                     stats := (stats c)\<lparr>Miss := Miss (stats c) + 1\<rparr>\<rparr>) \<and>
            e \<in> set (ll c) \<and> e \<notin> set (remove1 e (ll c)) \<and>
            Size (c\<lparr>ll := remove1 e (ll c), cache := (cache c)(k := None),
                    stats := (stats c)\<lparr>Miss := Miss (stats c) + 1\<rparr>\<rparr>) = Size c - 1) \<and>
         (cache c k = None \<longrightarrow>
            Get c k t = Inr (None, c\<lparr>stats := (stats c)\<lparr>Miss := Miss (stats c) + 1\<rparr>\<rparr>))"
proof (intro conjI impI)
  assume a: "cache c k = Some e \<and> heap c e = Some r \<and> expireAt r < MillisecondNow t"
  from consistent_lookup [OF assms, of k e] a have e: "e \<in> set (ll c)" "key r = k" by auto
  show "Get c k t = Inr (None, c\<lparr>ll := remove1 e (ll c), cache := (cache c)(k := None),
                                     stats := (stats c)\<lparr>Miss := Miss (stats c) + 1\<rparr>\<rparr>)"
    using Get_expired [of c k e r t] a e by simp
  show "e \<in> set (ll c)" by (rule e(1))
  show "e \<notin> set (remove1 e (ll c))" using consistent_distinct [OF assms] by simp
  have "length (remove1 e (ll c)) = length (ll c) - 1" using e(1) by (simp add: length_remove1)
  moreover have "length (ll c) \<ge> 1" using e(1) by (cases "ll c") auto
  ultimately show "Size (c\<lparr>ll := remove1 e (ll c), cache := (cache c)(k := None),
                    stats := (stats c)\<lparr>Miss := Miss (stats c) + 1\<rparr>\<rparr>) = Size c - 1"
    by (simp add: Size_def list_Len_def)
next
  assume "cache c k = None"
  then show "Get c k t = Inr (None, c\<lparr>stats := (stats c)\<lparr>Miss := Miss (stats c) + 1\<rparr>\<rparr>)"
    by (rule Get_absent)
qed

theorem Get_expired_or_absent_witness:
  "consistent ab_cache \<and> cache ab_cache ''a'' = Some 0 \<and>
   heap ab_cache 0 = Some \<lparr>key = ''a'', value' = 1, expireAt = 5000\<rparr> \<and>
   (5000 :: int) < MillisecondNow 5001000000 \<and>
   Get ab_cache ''a'' 5001000000 =
     Inr (None, ab_cache\<lparr>ll := [1], cache := [''b'' \<mapsto> 1], stats := \<lparr>Hit = 0, Miss = 1\<rparr>\<rparr>) \<and>
   cache ab_cache ''z'' = None \<and>
   Get ab_cache ''z'' 5001000000 = Inr (None, ab_cache\<lparr>stats := \<lparr>Hit = 0, Miss = 1\<rparr>\<rparr>)"
proof -
  have 1: "cache ab_cache ''a'' = Some 0"
    and 2: "heap ab_cache 0 = Some \<lparr>key = ''a'', value' = 1, expireAt = 5000\<rparr>"
    and 3: "(5000 :: int) < MillisecondNow 5001000000"
    and 4: "cache ab_cache ''z'' = None"
    by (simp_all add: ab_cache_def MillisecondNow_def signed_divide_int_def)
  have 5: "(cache ab_cache)(''a'' := None) = [''b'' \<mapsto> 1]"
    by (auto simp: ab_cache_def fun_eq_iff)
  show ?thesis
    using Get_expired_or_absent [OF consistent_ab_cache,
        of "''a''" 0 "\<lparr>key = ''a'', value' = 1, expireAt = 5000\<rparr>" 5001000000]
      Get_expired_or_absent [OF consistent_ab_cache, of "''z''" 0 "\<lparr>key = ''z'', value' = 0, expireAt = 0\<rparr>" 5001000000]
      1 2 3 4 5 consistent_ab_cache
    by (simp add: ab_cache_def)
qed

text \<open>
  C4. In a consistent cache, \<open>addRecord\<close> of a key that is present returns true,
  replaces the record of its element by the new one (value and \<open>expireAt\<close>; the old
  record is not looked at, expired or not), moves the element to the front of the list,
  and leaves \<open>Size\<close> unchanged.
\<close>

theorem addRecord_existing_key:
  assumes "consistent c" and "cache c (key r) = Some e"
  shows "addRecord c r =
           Inr (True, c\<lparr>ll := e # remove1 e (ll c), heap := (heap c)(e \<mapsto> r)\<rparr>) \<and>
         Size (c\<lparr>ll := e # remove1 e (ll c), heap := (heap c)(e \<mapsto> r)\<rparr>) = Size c \<and>
         e \<in> set (ll c) \<and> e \<notin> set (remove1 e (ll c))"
proof -
  from consistent_lookup [OF assms] have e: "e \<in> set (ll c)" by simp
  then have "length (ll c) \<ge> 1" by (cases "ll c") auto
  then have "Size (c\<lparr>ll := e # remove1 e (ll c), heap := (heap c)(e \<mapsto> r)\<rparr>) = Size c"
    using e by (simp add: Size_def list_Len_def length_remove1)
  then show ?thesis
    using addRecord_present [OF assms] e consistent_distinct [OF assms(1)] by simp
qed

theorem addRecord_existing_key_witness:
  "consistent ab_cache \<and> cache ab_cache ''a'' = Some 0 \<and>
   Add ab_cache ''a'' 9 1 =
     Inr (True, ab_cache\<lparr>ll := [0, 1],
        heap := [0 \<mapsto> \<lparr>key = ''a'', value' = 9, expireAt = 1\<rparr>,
                 1 \<mapsto> \<lparr>key = ''b'', value' = 2, expireAt = 7000\<rparr>]\<rparr>)"
proof -
  have 1: "cache ab_cache (key \<lparr>key = ''a'', value' = 9 :: int, expireAt = 1\<rparr>) = Some 0"
    by (simp add: ab_cache_def)
  have 2: "(heap ab_cache)(0 \<mapsto> \<lparr>key = ''a'', value' = 9, expireAt = 1\<rparr>) =
           [0 \<mapsto> \<lparr>key = ''a'', value' = 9, expireAt = 1\<rparr>,
            1 \<mapsto> \<lparr>key = ''b'', value' = 2, expireAt = 7000\<rparr>]"
    by (auto simp: ab_cache_def fun_eq_iff)
  show ?thesis
    using addRecord_existing_key [OF consistent_ab_cache 1] 1 2 consistent_ab_cache
    by (simp add: Add_def) (simp add: ab_cache_def)
qed

text \<open>
  C5. In a consistent cache, \<open>UpdateExpiration\<close> of a present key returns true and
  changes only the \<open>expireAt\<close> of that key's record: the value, the list, the index
  and the counters stay as they are. For an absent key it returns false and the state is
  the same.
\<close>

theorem UpdateExpiration_frame:
  assumes "consistent c"
  shows "(cache c k = Some e \<longrightarrow>
            (\<exists>r. heap c e = Some r \<and> key r = k \<and>
               UpdateExpiration c k x =
                 Inr (True, c\<lparr>heap := (heap c)(e \<mapsto> r\<lparr>expireAt := x\<rparr>)\<rparr>))) \<and>
         (cache c k = None \<longrightarrow> UpdateExpiration c k x = Inr (False, c))"
proof (intro conjI impI)
  assume a: "cache c k = Some e"
  from consistent_lookup [OF assms a] obtain r where r: "heap c e = Some r" "key r = k" by auto
  with UpdateExpiration_present [OF a r(1), of x]
  show "\<exists>r. heap c e = Some r \<and> key r = k \<and>
          UpdateExpiration c k x = Inr (True, c\<lparr>heap := (heap c)(e \<mapsto> r\<lparr>expireAt := x\<rparr>)\<rparr>)"
    by simp
next
  assume "cache c k = None"
  then show "UpdateExpiration c k x = Inr (False, c)" by (rule UpdateExpiration_absent)
qed

theorem UpdateExpiration_frame_witness:
  "consistent ab_cache \<and> cache ab_cache ''a'' = Some 0 \<and>
   UpdateExpiration ab_cache ''a'' 42 =
     Inr (True, ab_cache\<lparr>heap := (heap ab_cache)(0 \<mapsto> \<lparr>key = ''a'', value' = 1, expireAt = 42\<rparr>)\<rparr>) \<and>
   cache ab_cache ''z'' = None \<and>
   UpdateExpiration ab_cache ''z'' 42 = Inr (False, ab_cache)"
proof -
  have 1: "cache ab_cache ''a'' = Some 0" and 2: "cache ab_cache ''z'' = None"
    and 3: "heap ab_cache 0 = Some \<lparr>key = ''a'', value' = 1, expireAt = 5000\<rparr>"
    by (simp_all add: ab_cache_def)
  show ?thesis
    using UpdateExpiration_frame [OF consistent_ab_cache, of "''a''" 0 42]
      UpdateExpiration_frame [OF consistent_ab_cache, of "''z''" 0 42]
      1 2 3 consistent_ab_cache
    by auto
qed

text \<open>
  C9. The expiration boundary is exclusive: in a consistent cache, \<open>Get\<close> of a present
  key whose \<open>expireAt\<close> is equal to the current millisecond or greater is a hit. It
  returns the value, adds one to \<open>Hit\<close>, moves the element to the front and keeps the
  entry.
\<close>

theorem Get_boundary_exclusive:
  assumes "consistent c" and "cache c k = Some e" and "heap c e = Some r"
    and "MillisecondNow t \<le> expireAt r"
  shows "Get c k t =
           Inr (Some (value' r),
                c\<lparr>stats := (stats c)\<lparr>Hit := Hit (stats c) + 1\<rparr>, ll := e # remove1 e (ll c)\<rparr>) \<and>
         cache c k = cache (c\<lparr>stats := (stats c)\<lparr>Hit := Hit (stats c) + 1\<rparr>,
                              ll := e # remove1 e (ll c)\<rparr>) k \<and>
         e \<in> set (ll c)"
proof -
  from consistent_lookup [OF assms(1,2)] have e: "e \<in> set (ll c)" by simp
  from assms(4) have "\<not> expireAt r < MillisecondNow t" by simp
  from Get_hit [OF assms(2,3) this] e show ?thesis by (simp add: list_MoveToFront_def)
qed

theorem Get_boundary_exclusive_witness:
  "consistent ab_cache \<and> cache ab_cache ''a'' = Some 0 \<and>
   heap ab_cache 0 = Some \<lparr>key = ''a'', value' = 1, expireAt = 5000\<rparr> \<and>
   MillisecondNow 5000999999 = 5000 \<and>
   Get ab_cache ''a'' 5000999999 =
     Inr (Some 1, ab_cache\<lparr>stats := \<lparr>Hit = 1, Miss = 0\<rparr>, ll := [0, 1]\<rparr>)"
proof -
  have 1: "cache ab_cache ''a'' = Some 0"
    and 2: "heap ab_cache 0 = Some \<lparr>key = ''a'', value' = 1, expireAt = 5000\<rparr>"
    and 3: "MillisecondNow 5000999999 = 5000"
    by (simp_all add: ab_cache_def MillisecondNow_def signed_divide_int_def)
  have 4: "MillisecondNow 5000999999 \<le> expireAt \<lparr>key = ''a'', value' = 1 :: int, expireAt = 5000\<rparr>"
    using 3 by simp
  show ?thesis
    using Get_boundary_exclusive [OF consistent_ab_cache 1 2 4] 1 2 3 consistent_ab_cache
    by (simp add: ab_cache_def)
qed

text \<open>
  C1, as stated, fails for a negative capacity, which is a capacity other than 0: in a
  cache constructed with \<open>maxSize = - 3\<close> the list is longer than the capacity after
  every insertion, the \<open>Add\<close> of a new key evicts, and \<open>Size\<close> is 0 afterwards, not the
  capacity.
\<close>

theorem negative_maxSize_counterexample:
  "cacheSize neg_cache = - 3 \<and> cacheSize neg_cache \<noteq> 0 \<and> cache neg_cache ''a'' = None \<and>
   Size neg_cache = 0 \<and>
   Size_after neg_cache [CallAdd ''a'' 1 10] = Inr 0 \<and>
   Size_after neg_cache [CallAdd ''a'' 1 10] \<noteq> Inr (cacheSize neg_cache)"
  by (simp add: neg_cache_def Size_after_def NewLRUCache_def SetDefault_def Add_def
      addRecord_def removeOldest_def removeElement_def list_PushFront_def list_Len_def
      list_Back_def list_Remove_def Let_def Size_def)

text \<open>
  C1, amended. In a consistent cache with \<open>cacheSize\<close> not 0, \<open>addRecord\<close> of a key
  that is not present returns false and puts a new element with the record at the front.
  If the list is then longer than \<open>cacheSize\<close>, exactly one element is removed, the one
  at the back, from the list and (its key) from the index; its \<open>expireAt\<close> is not looked
  at. The back is the least recently used: in a cache reached from a new one by a call
  sequence, the keys are in the order of their last touch by an \<open>Add\<close> or a \<open>Get\<close>
  that hit, most recent first, so the key at the back was touched least recently.
  With a positive capacity and at most that many entries, \<open>Size\<close> afterwards is the
  smaller of the capacity and \<open>Size + 1\<close>. A cache constructed with a \<open>maxSize\<close> that
  is not negative never holds more entries than its capacity, so there \<open>Size\<close> stays
  within the capacity and a full cache stays full.
\<close>

theorem addRecord_new_key:
  assumes "consistent c" and "cacheSize c \<noteq> 0" and "cache c (key r) = None"
  shows "\<exists>c'. addRecord c r = Inr (False, c') \<and>
           heap c' = (heap c)(nextElem c \<mapsto> r) \<and>
           stats c' = stats c \<and> cacheSize c' = cacheSize c \<and>
           (if cacheSize c < Size c + 1
            then (\<exists>kv. heap c' (last (nextElem c # ll c)) = Some kv \<and>
                    cache (pushed c r) (key kv) = Some (last (nextElem c # ll c)) \<and>
                    ll c' = butlast (nextElem c # ll c) \<and>
                    set (ll c') = insert (nextElem c) (set (ll c)) - {last (nextElem c # ll c)} \<and>
                    cache c' = ((cache c)(key r \<mapsto> nextElem c))(key kv := None) \<and>
                    key kv = last (key r # keys c) \<and>
                    keys c' = butlast (key r # keys c) \<and>
                    Size c' = Size c)
            else ll c' = nextElem c # ll c \<and>
                 cache c' = (cache c)(key r \<mapsto> nextElem c) \<and>
                 keys c' = key r # keys c \<and>
                 Size c' = Size c + 1) \<and>
           (0 < cacheSize c \<and> Size c \<le> cacheSize c \<longrightarrow>
              Size c' = min (cacheSize c) (Size c + 1)) \<and>
           (run (NewLRUCache n) xs = Inr (rs, c) \<longrightarrow>
              sorted_wrt (\<lambda>a b. last_touch xs rs b < last_touch xs rs a) (keys c) \<and>
              (\<forall>k \<in> set (keys c).
                 0 < last_touch xs rs k \<and> last_touch xs rs (last (keys c)) \<le> last_touch xs rs k) \<and>
              (0 \<le> n \<longrightarrow>
                 0 < cacheSize c \<and> Size c \<le> cacheSize c \<and> Size c' \<le> cacheSize c \<and>
                 (Size c = cacheSize c \<longrightarrow> Size c' = cacheSize c)))"
proof -
  have N: "0 < cacheSize c \<and> Size c \<le> cacheSize c"
    if "run (NewLRUCache n) xs = Inr (rs, c)" "0 \<le> n"
    using run_new_bounded [OF that] by simp
  have B: "run (NewLRUCache n) xs = Inr (rs, c) \<longrightarrow>
              sorted_wrt (\<lambda>a b. last_touch xs rs b < last_touch xs rs a) (keys c) \<and>
              (\<forall>k \<in> set (keys c).
                 0 < last_touch xs rs k \<and> last_touch xs rs (last (keys c)) \<le> last_touch xs rs k)"
  proof
    assume "run (NewLRUCache n) xs = Inr (rs, c)"
    from run_new_recent [OF this] have r: "recent (last_touch xs rs) (length xs) (keys c)" .
    then show "sorted_wrt (\<lambda>a b. last_touch xs rs b < last_touch xs rs a) (keys c) \<and>
              (\<forall>k \<in> set (keys c).
                 0 < last_touch xs rs k \<and> last_touch xs rs (last (keys c)) \<le> last_touch xs rs k)"
      using recent_last_least [OF r] by (simp add: recent_def)
  qed
  have sz: "Size c = int (length (keys c))"
    by (simp add: Size_def list_Len_def length_keys [OF assms(1)])
  show ?thesis
  proof (cases "cacheSize c < Size c + 1")
    case False
    then have "cacheSize c = 0 \<or> int (length (ll c)) + 1 \<le> cacheSize c"
      by (simp add: Size_def list_Len_def)
    from addRecord_absent_keep [OF assms(3) this] False keys_pushed [OF assms(1,3)] B N
    show ?thesis by (auto simp: pushed_def Size_def list_Len_def)
  next
    case True
    then have f: "int (length (ll c)) + 1 > cacheSize c" by (simp add: Size_def list_Len_def)
    from pushed_last [OF assms(1,3)] obtain kv where
      kv: "heap (pushed c r) (last (nextElem c # ll c)) = Some kv"
          "cache (pushed c r) (key kv) = Some (last (nextElem c # ll c))" by auto
    let ?c' = "(pushed c r)\<lparr>ll := butlast (nextElem c # ll c),
                 cache := (cache (pushed c r))(key kv := None)\<rparr>"
    have a: "addRecord c r = Inr (False, ?c')"
      using assms(1,3,2) f kv(1) by (rule addRecord_absent_evict)
    have n: "nextElem c \<notin> set (ll c)"
      using consistent_bound [OF assms(1), of "nextElem c"] by auto
    then have d: "distinct (nextElem c # ll c)" using consistent_distinct [OF assms(1)] by simp
    have s: "set (butlast (nextElem c # ll c)) =
             insert (nextElem c) (set (ll c)) - {last (nextElem c # ll c)}"
      using pushed_remove1_last [OF assms(1)] set_remove1_eq [OF d, of "last (nextElem c # ll c)"]
      by simp
    have p: "consistent (pushed c r)" using assms(1,3) by (rule consistent_pushed)
    have l: "ll (pushed c r) = nextElem c # ll c" by (simp add: pushed_def)
    have "ll (pushed c r) \<noteq> []" using l by simp
    then have "last (map (\<lambda>e. key (the (heap (pushed c r) e))) (ll (pushed c r))) =
               key (the (heap (pushed c r) (last (ll (pushed c r)))))"
      by (rule last_map)
    then have "last (keys (pushed c r)) = key (the (heap (pushed c r) (last (ll (pushed c r)))))"
      by (simp only: keys_map [OF p])
    then have "key kv = last (keys (pushed c r))"
      using kv(1) by (simp only: l option.sel)
    then have kl: "key kv = last (key r # keys c)" using keys_pushed [OF assms(1,3)] by simp
    have "heap ?c' = (heap c)(nextElem c \<mapsto> r)" "stats ?c' = stats c"
      "cacheSize ?c' = cacheSize c"
      "heap ?c' (last (nextElem c # ll c)) = Some kv"
      "cache ?c' = ((cache c)(key r \<mapsto> nextElem c))(key kv := None)"
      "Size ?c' = Size c" "ll ?c' = butlast (nextElem c # ll c)"
      using kv(1) by (simp_all add: pushed_def Size_def list_Len_def)
    moreover have "0 < cacheSize c \<and> Size c \<le> cacheSize c \<longrightarrow>
        Size c = min (cacheSize c) (Size c + 1)"
      using True by auto
    moreover have "run (NewLRUCache n) xs = Inr (rs, c) \<longrightarrow> 0 \<le> n \<longrightarrow>
        0 < cacheSize c \<and> Size c \<le> cacheSize c"
      using N by blast
    ultimately show ?thesis
      using a kv(2) s True kl keys_evicted [OF assms(1,3) kv(1)] B
      by (simp del: butlast.simps last.simps set_simps)
  qed
qed

theorem addRecord_new_key_witness:
  "run (NewLRUCache 2) [CallAdd ''a'' 1 5000, CallAdd ''b'' 2 7000] =
     Inr ([RetAdd False, RetAdd False], ab_cache) \<and>
   consistent ab_cache \<and> cacheSize ab_cache \<noteq> 0 \<and> 0 < cacheSize ab_cache \<and>
   cache ab_cache ''c'' = None \<and>
   Size ab_cache = cacheSize ab_cache \<and> keys ab_cache = [''b'', ''a''] \<and>
   (\<exists>c'. Add ab_cache ''c'' 3 9000 = Inr (False, c') \<and> ll c' = [2, 1] \<and>
      keys c' = [''c'', ''b''] \<and> cache c' = [''b'' \<mapsto> 1, ''c'' \<mapsto> 2] \<and> Size c' = 2) \<and>
   last_touch [CallAdd ''a'' (1 :: int) 5000, CallAdd ''b'' 2 7000] [RetAdd False, RetAdd False] ''a''
     \<le> last_touch [CallAdd ''a'' (1 :: int) 5000, CallAdd ''b'' 2 7000] [RetAdd False, RetAdd False] ''b''"
proof -
  let ?r = "\<lparr>key = ''c'', value' = 3 :: int, expireAt = 9000\<rparr>"
  let ?xs = "[CallAdd ''a'' (1 :: int) 5000, CallAdd ''b'' 2 7000]"
  let ?rs = "[RetAdd False, RetAdd False :: int ret]"
  have 0: "run (NewLRUCache 2) ?xs = Inr (?rs, ab_cache)"
    by (simp add: NewLRUCache_def SetDefault_def Add_def addRecord_def list_PushFront_def
        list_Len_def Let_def ab_cache_def)
  have 1: "cacheSize ab_cache \<noteq> 0" and 2: "cache ab_cache (key ?r) = None"
    and 3: "Size ab_cache = cacheSize ab_cache"
    and 4: "keys ab_cache = [''b'', ''a'']"
    by (simp_all add: ab_cache_def Size_def list_Len_def keys_def map_filter_def)
  from addRecord_new_key [OF consistent_ab_cache 1 2, of 2 ?xs ?rs]
  obtain c' kv where c': "addRecord ab_cache ?r = Inr (False, c')"
    "heap c' = (heap ab_cache)(nextElem ab_cache \<mapsto> ?r)"
    "heap c' (last (nextElem ab_cache # ll ab_cache)) = Some kv"
    "ll c' = butlast (nextElem ab_cache # ll ab_cache)"
    "cache c' = ((cache ab_cache)(key ?r \<mapsto> nextElem ab_cache))(key kv := None)"
    "keys c' = butlast (key ?r # keys ab_cache)"
    "Size c' = Size ab_cache"
    and lt: "\<forall>k \<in> set (keys ab_cache).
      last_touch ?xs ?rs (last (keys ab_cache)) \<le> last_touch ?xs ?rs k"
    using 0 3 by (auto split: if_splits)
  from c'(2,3) have kv: "kv = \<lparr>key = ''a'', value' = 1, expireAt = 5000\<rparr>"
    by (simp add: ab_cache_def)
  have "cache c' = [''b'' \<mapsto> 1, ''c'' \<mapsto> 2]"
    unfolding c'(5) kv by (auto simp: ab_cache_def fun_eq_iff)
  moreover have "ll c' = [2, 1]" "Size c' = 2" "keys c' = [''c'', ''b'']"
    using c'(4,6,7) 4 by (simp_all add: ab_cache_def Size_def list_Len_def)
  moreover have "last_touch ?xs ?rs ''a'' \<le> last_touch ?xs ?rs ''b''"
    using lt 4 by simp
  moreover have "0 < cacheSize ab_cache" by (simp add: ab_cache_def)
  ultimately show ?thesis
    using c'(1) consistent_ab_cache 0 1 2 3 4 by (simp add: Add_def)
qed

text \<open>
  C6. Every sequence of \<open>Add\<close>, \<open>Get\<close>, \<open>Remove\<close> and \<open>UpdateExpiration\<close> calls on
  a new cache runs without a panic and ends in a state where the index and the list are
  consistent: they have the same number of entries and the same keys, every element of
  the list has exactly one key in the index, and every index entry points to an element
  of the list that holds this key.
\<close>

theorem index_list_consistent:
  "\<exists>rs c. run (NewLRUCache n) xs = Inr (rs, c) \<and> consistent c \<and>
     card (dom (cache c)) = length (ll c) \<and> Size c = int (card (dom (cache c))) \<and>
     dom (cache c) = set (keys c) \<and> length (keys c) = length (ll c) \<and> distinct (keys c) \<and>
     (\<forall>e \<in> set (ll c). \<exists>!k. cache c k = Some e) \<and>
     (\<forall>k e. cache c k = Some e \<longrightarrow> e \<in> set (ll c) \<and> map_option key (heap c e) = Some k)"
proof -
  from run_consistent [OF consistent_NewLRUCache, of n xs] obtain rs c where
    r: "run (NewLRUCache n) xs = Inr (rs, c)" and c: "consistent c" by auto
  have "\<forall>k e. cache c k = Some e \<longrightarrow> e \<in> set (ll c) \<and> map_option key (heap c e) = Some k"
  proof (intro allI impI)
    fix k e
    assume "cache c k = Some e"
    from consistent_lookup [OF c this]
    show "e \<in> set (ll c) \<and> map_option key (heap c e) = Some k" by auto
  qed
  moreover have "\<forall>e \<in> set (ll c). \<exists>!k. cache c k = Some e"
    using one_key_per_elem [OF c] by blast
  moreover have "Size c = int (card (dom (cache c)))"
    using card_dom_cache [OF c] by (simp add: Size_def list_Len_def)
  ultimately have "run (NewLRUCache n) xs = Inr (rs, c) \<and> consistent c \<and>
     card (dom (cache c)) = length (ll c) \<and> Size c = int (card (dom (cache c))) \<and>
     dom (cache c) = set (keys c) \<and> length (keys c) = length (ll c) \<and> distinct (keys c) \<and>
     (\<forall>e \<in> set (ll c). \<exists>!k. cache c k = Some e) \<and>
     (\<forall>k e. cache c k = Some e \<longrightarrow> e \<in> set (ll c) \<and> map_option key (heap c e) = Some k)"
    using r c card_dom_cache [OF c] dom_cache_keys [OF c] length_keys [OF c] distinct_keys [OF c]
    by (intro conjI) assumption+
  then show ?thesis by (intro exI)
qed

theorem index_list_consistent_witness:
  "\<exists>rs c. run (NewLRUCache 2 :: (string, int) LRUCache)
             [CallAdd ''a'' 1 10, CallAdd ''b'' 2 10, CallAdd ''c'' 3 10, CallRemove ''b''] =
             Inr (rs, c) \<and>
     card (dom (cache c)) = length (ll c) \<and> dom (cache c) = set (keys c) \<and> keys c = [''c'']"
proof -
  from index_list_consistent [of 2 "[CallAdd ''a'' (1 :: int) 10, CallAdd ''b'' 2 10,
      CallAdd ''c'' 3 10, CallRemove ''b'']"]
  obtain rs and c :: "(string, int) LRUCache" where
    r: "run (NewLRUCache 2) [CallAdd ''a'' 1 10, CallAdd ''b'' 2 10, CallAdd ''c'' 3 10, CallRemove ''b''] =
          Inr (rs, c)"
    and c: "card (dom (cache c)) = length (ll c)" "dom (cache c) = set (keys c)"
    by auto
  from r have "keys c = [''c'']"
    by (auto simp: NewLRUCache_def SetDefault_def Add_def addRecord_def Remove_def
        removeOldest_def removeElement_def list_PushFront_def list_Len_def list_Back_def
        list_Remove_def keys_def map_filter_def Let_def)
  with r c show ?thesis by blast
qed

text \<open>
  C7. A call never decreases \<open>Hit\<close> or \<open>Miss\<close>; a \<open>Get\<close> adds one to exactly one of
  them (to \<open>Hit\<close> when it finds the value, to \<open>Miss\<close> otherwise), and \<open>Add\<close>,
  \<open>Remove\<close> and \<open>UpdateExpiration\<close> leave both as they are. After a call sequence
  the counters have grown by the number of hits and the number of misses among its
  \<open>Get\<close> calls; on a new cache they are equal to these numbers.
\<close>

theorem counters_exact:
  "(do_call c x = Inr (r, c') \<longrightarrow>
      Hit (stats c) \<le> Hit (stats c') \<and> Miss (stats c) \<le> Miss (stats c') \<and>
      (if is_Get x
       then (is_hit r \<and> Hit (stats c') = Hit (stats c) + 1 \<and> Miss (stats c') = Miss (stats c)) \<or>
            (is_miss r \<and> Hit (stats c') = Hit (stats c) \<and> Miss (stats c') = Miss (stats c) + 1)
       else stats c' = stats c)) \<and>
   (run c xs = Inr (rs, c2) \<longrightarrow>
      Hit (stats c2) = Hit (stats c) + int (hits rs) \<and>
      Miss (stats c2) = Miss (stats c) + int (misses rs) \<and>
      hits rs + misses rs = length (filter is_Get xs)) \<and>
   (\<exists>rs c1. run (NewLRUCache n) xs = Inr (rs, c1) \<and>
      Hit (stats c1) = int (hits rs) \<and> Miss (stats c1) = int (misses rs) \<and>
      hits rs + misses rs = length (filter is_Get xs))"
proof (intro conjI impI)
  assume a: "do_call c x = Inr (r, c')"
  from do_call_stats [OF a]
  show "Hit (stats c) \<le> Hit (stats c')" "Miss (stats c) \<le> Miss (stats c')"
    by (auto split: if_splits)
  from do_call_stats [OF a]
  show "if is_Get x
       then (is_hit r \<and> Hit (stats c') = Hit (stats c) + 1 \<and> Miss (stats c') = Miss (stats c)) \<or>
            (is_miss r \<and> Hit (stats c') = Hit (stats c) \<and> Miss (stats c') = Miss (stats c) + 1)
       else stats c' = stats c"
    by (auto split: if_splits)
next
  assume a: "run c xs = Inr (rs, c2)"
  from run_stats [OF a]
  show "Hit (stats c2) = Hit (stats c) + int (hits rs)"
    "Miss (stats c2) = Miss (stats c) + int (misses rs)"
    "hits rs + misses rs = length (filter is_Get xs)"
    by simp_all
next
  from run_consistent [OF consistent_NewLRUCache, of n xs] obtain rs c1 where
    r: "run (NewLRUCache n) xs = Inr (rs, c1)" by auto
  from run_stats [OF r] have "Hit (stats c1) = int (hits rs) \<and> Miss (stats c1) = int (misses rs) \<and>
      hits rs + misses rs = length (filter is_Get xs)"
    by (simp add: NewLRUCache_def)
  with r show "\<exists>rs c1. run (NewLRUCache n) xs = Inr (rs, c1) \<and>
      Hit (stats c1) = int (hits rs) \<and> Miss (stats c1) = int (misses rs) \<and>
      hits rs + misses rs = length (filter is_Get xs)"
    by (intro exI conjI) auto
qed

theorem counters_exact_witness:
  "\<exists>rs c1. run (NewLRUCache 2 :: (string, int) LRUCache)
      [CallAdd ''a'' 1 10, CallGet ''a'' 0, CallGet ''b'' 0, CallGet ''a'' 11000000,
       CallRemove ''a'', CallUpdateExpiration ''a'' 3] = Inr (rs, c1) \<and>
     rs = [RetAdd False, RetGet (Some 1), RetGet None, RetGet None, RetRemove, RetUpdate False] \<and>
     Hit (stats c1) = 1 \<and> Miss (stats c1) = 2"
proof -
  let ?xs = "[CallAdd ''a'' (1 :: int) 10, CallGet ''a'' 0, CallGet ''b'' 0, CallGet ''a'' 11000000,
       CallRemove ''a'', CallUpdateExpiration ''a'' 3]"
  from counters_exact [where n = 2 and xs = ?xs and c = "NewLRUCache 2" and x = "CallRemove ''a''"
      and r = RetRemove and c' = "NewLRUCache 2" and rs = "[]" and ?c2.0 = "NewLRUCache 2",
      THEN conjunct2, THEN conjunct2]
  obtain rs and c1 :: "(string, int) LRUCache" where
    r: "run (NewLRUCache 2) ?xs = Inr (rs, c1)"
    and s: "Hit (stats c1) = int (hits rs)" "Miss (stats c1) = int (misses rs)"
    by auto
  from r have rs: "rs = [RetAdd False, RetGet (Some 1), RetGet None, RetGet None, RetRemove, RetUpdate False]"
    by (auto simp: NewLRUCache_def SetDefault_def Add_def addRecord_def Remove_def Get_def
        UpdateExpiration_def MillisecondNow_def signed_divide_int_def
        removeOldest_def removeElement_def list_PushFront_def list_Len_def list_Back_def
        list_Remove_def list_MoveToFront_def Let_def)
  with s have "Hit (stats c1) = 1" "Miss (stats c1) = 2" by (simp_all add: hits_def misses_def)
  with r rs show ?thesis by blast
qed

text \<open>
  C10. \<open>NewLRUCache\<close> keeps a negative \<open>maxSize\<close>. With a negative \<open>cacheSize\<close>
  every \<open>addRecord\<close> of a key that is not present removes the element at the back
  right after the insertion. A cache constructed with a negative \<open>maxSize\<close> is empty
  after every call sequence, and no \<open>Get\<close> of the sequence is a hit.
\<close>

theorem negative_capacity:
  assumes "n < 0"
  shows "cacheSize (NewLRUCache n) = n \<and>
         (consistent c \<and> cacheSize c < 0 \<and> cache c (key r) = None \<longrightarrow>
            (\<exists>c' kv. addRecord c r = Inr (False, c') \<and>
               heap (pushed c r) (last (nextElem c # ll c)) = Some kv \<and>
               ll c' = butlast (nextElem c # ll c) \<and>
               cache c' = ((cache c)(key r \<mapsto> nextElem c))(key kv := None) \<and>
               Size c' = Size c)) \<and>
         (\<exists>rs c'. run (NewLRUCache n) xs = Inr (rs, c') \<and> Size c' = 0 \<and>
            cache c' = Map.empty \<and> hits rs = 0 \<and> misses rs = length (filter is_Get xs))"
proof (intro conjI impI)
  show "cacheSize (NewLRUCache n) = n" using assms by (simp add: NewLRUCache_def SetDefault_def)
next
  assume a: "consistent c \<and> cacheSize c < 0 \<and> cache c (key r) = None"
  then have c: "consistent c" and k: "cache c (key r) = None" and z: "cacheSize c \<noteq> 0"
    and f: "int (length (ll c)) + 1 > cacheSize c" by auto
  from pushed_last [OF c k] obtain kv where
    kv: "heap (pushed c r) (last (nextElem c # ll c)) = Some kv" by auto
  let ?c' = "(pushed c r)\<lparr>ll := butlast (nextElem c # ll c),
               cache := (cache (pushed c r))(key kv := None)\<rparr>"
  have "addRecord c r = Inr (False, ?c')" using c k z f kv by (rule addRecord_absent_evict)
  moreover have "ll ?c' = butlast (nextElem c # ll c)"
    "cache ?c' = ((cache c)(key r \<mapsto> nextElem c))(key kv := None)" "Size ?c' = Size c"
    by (simp_all add: pushed_def Size_def list_Len_def)
  ultimately show "\<exists>c' kv. addRecord c r = Inr (False, c') \<and>
               heap (pushed c r) (last (nextElem c # ll c)) = Some kv \<and>
               ll c' = butlast (nextElem c # ll c) \<and>
               cache c' = ((cache c)(key r \<mapsto> nextElem c))(key kv := None) \<and>
               Size c' = Size c"
    using kv by blast
next
  have "cacheSize (NewLRUCache n) < 0" "ll (NewLRUCache n) = []" "cache (NewLRUCache n) = Map.empty"
    using assms by (simp_all add: NewLRUCache_def SetDefault_def)
  from neg_run [OF this, of xs] obtain rs c' where
    r: "run (NewLRUCache n) xs = Inr (rs, c')" "ll c' = []" "cache c' = Map.empty" "hits rs = 0"
    by auto
  from run_stats [OF r(1)] r(4) have "misses rs = length (filter is_Get xs)" by simp
  with r show "\<exists>rs c'. run (NewLRUCache n) xs = Inr (rs, c') \<and> Size c' = 0 \<and>
            cache c' = Map.empty \<and> hits rs = 0 \<and> misses rs = length (filter is_Get xs)"
    by (simp add: Size_def list_Len_def)
qed

theorem negative_capacity_witness:
  "(- 3 :: int) < 0 \<and> cacheSize neg_cache = - 3 \<and> consistent neg_cache \<and>
   cache neg_cache ''a'' = None \<and>
   (\<exists>c'. Add neg_cache ''a'' 1 10 = Inr (False, c') \<and> ll c' = [] \<and> Size c' = 0) \<and>
   (\<exists>rs c'. run neg_cache [CallAdd ''a'' 1 10, CallGet ''a'' 0] = Inr (rs, c') \<and>
      rs = [RetAdd False, RetGet None] \<and> Size c' = 0)"
proof -
  let ?r = "\<lparr>key = ''a'', value' = 1 :: int, expireAt = 10\<rparr>"
  let ?xs = "[CallAdd ''a'' (1 :: int) 10, CallGet ''a'' 0]"
  have 0: "(- 3 :: int) < 0" by simp
  have 1: "consistent neg_cache \<and> cacheSize neg_cache < 0 \<and> cache neg_cache (key ?r) = None"
    by (simp add: neg_cache_def consistent_NewLRUCache) (simp add: NewLRUCache_def SetDefault_def)
  note w = negative_capacity [OF 0, where c = neg_cache and r = ?r and xs = ?xs, folded neg_cache_def]
  from w 1 obtain c' where a: "addRecord neg_cache ?r = Inr (False, c')"
    "ll c' = butlast (nextElem neg_cache # ll neg_cache)" "Size c' = Size neg_cache"
    by blast
  from a(2,3) have a': "ll c' = []" "Size c' = 0"
    by (simp_all add: neg_cache_def NewLRUCache_def Size_def list_Len_def)
  from w obtain rs c2 where b: "run neg_cache ?xs = Inr (rs, c2)" "Size c2 = 0" by blast
  from b(1) have "rs = [RetAdd False, RetGet None]"
    by (auto simp: neg_cache_def NewLRUCache_def SetDefault_def Add_def addRecord_def Get_def
        removeOldest_def removeElement_def list_PushFront_def list_Len_def list_Back_def
        list_Remove_def Let_def)
  moreover have "cacheSize neg_cache = - 3"
    by (simp add: neg_cache_def NewLRUCache_def SetDefault_def)
  ultimately show ?thesis using a a' b 1 by (simp add: Add_def)
qed

text \<open>
  C8. Capacity 2, no entry expired at the time of its \<open>Get\<close>: after \<open>Add a\<close>,
  \<open>Add b\<close> and a \<open>Get a\<close> that is a hit, \<open>a\<close> is at the front and \<open>b\<close> at the back;
  \<open>Add c\<close> then evicts \<open>b\<close>. Afterwards \<open>Get b\<close> is a miss, \<open>Get a\<close> and
  \<open>Get c\<close> are hits.
\<close>

theorem lru_scenario:
  assumes "MillisecondNow t1 \<le> ea" and "MillisecondNow t3 \<le> ea" and "MillisecondNow t4 \<le> ec"
  shows "\<exists>c3 c4 c7.
           run (NewLRUCache 2) [CallAdd ''a'' (1 :: int) ea, CallAdd ''b'' 2 eb, CallGet ''a'' t1] =
             Inr ([RetAdd False, RetAdd False, RetGet (Some 1)], c3) \<and>
           keys c3 = [''a'', ''b''] \<and>
           run c3 [CallAdd ''c'' 3 ec] = Inr ([RetAdd False], c4) \<and>
           keys c4 = [''c'', ''a''] \<and> cache c4 ''b'' = None \<and> Size c4 = 2 \<and>
           run c4 [CallGet ''b'' t2, CallGet ''a'' t3, CallGet ''c'' t4] =
             Inr ([RetGet None, RetGet (Some 1), RetGet (Some 3)], c7) \<and>
           keys c7 = [''c'', ''a''] \<and> Size c7 = 2 \<and> Hit (stats c7) = 3 \<and> Miss (stats c7) = 1"
proof -
  have n: "\<not> ea < MillisecondNow t1" "\<not> ea < MillisecondNow t3" "\<not> ec < MillisecondNow t4"
    using assms by simp_all
  show ?thesis
    using n
    by (simp add: NewLRUCache_def SetDefault_def Add_def addRecord_def Get_def
        removeOldest_def removeElement_def list_PushFront_def list_Len_def list_Back_def
        list_Remove_def list_MoveToFront_def Let_def keys_def map_filter_def Size_def)
qed

theorem lru_scenario_witness:
  "MillisecondNow 5000000000 \<le> 6000 \<and>
   (\<exists>c4 c7.
      run (NewLRUCache 2) [CallAdd ''a'' (1 :: int) 6000, CallAdd ''b'' 2 6000,
        CallGet ''a'' 5000000000, CallAdd ''c'' 3 6000] =
        Inr ([RetAdd False, RetAdd False, RetGet (Some 1), RetAdd False], c4) \<and>
      run c4 [CallGet ''b'' 5000000000, CallGet ''a'' 5000000000, CallGet ''c'' 5000000000] =
        Inr ([RetGet None, RetGet (Some 1), RetGet (Some 3)], c7))"
proof -
  have 1: "MillisecondNow 5000000000 \<le> 6000"
    by (simp add: MillisecondNow_def signed_divide_int_def)
  from lru_scenario [OF 1 1 1, of 6000 5000000000]
  obtain c3 c4 c7 where
    r: "run (NewLRUCache 2) [CallAdd ''a'' (1 :: int) 6000, CallAdd ''b'' 2 6000,
          CallGet ''a'' 5000000000] = Inr ([RetAdd False, RetAdd False, RetGet (Some 1)], c3)"
       "run c3 [CallAdd ''c'' 3 6000] = Inr ([RetAdd False], c4)"
       "run c4 [CallGet ''b'' 5000000000, CallGet ''a'' 5000000000, CallGet ''c'' 5000000000] =
          Inr ([RetGet None, RetGet (Some 1), RetGet (Some 3)], c7)"
    by blast
  have "run (NewLRUCache 2) [CallAdd ''a'' (1 :: int) 6000, CallAdd ''b'' 2 6000,
        CallGet ''a'' 5000000000, CallAdd ''c'' 3 6000] =
        Inr ([RetAdd False, RetAdd False, RetGet (Some 1), RetAdd False], c4)"
    using r(1,2) by (auto split: sum.splits)
  with r(3) 1 show ?thesis by blast
qed

text \<open>
  C3, as stated, fails: \<open>NewLRUCache 0\<close> has capacity 50000 and is bounded (of 50001
  distinct keys added, 50000 remain), and \<open>NewLRUCache (- 1)\<close> has capacity \<open>- 1\<close>,
  not 50000.
\<close>

theorem zero_maxSize_counterexample:
  "cacheSize (NewLRUCache 0 :: (nat, unit) LRUCache) = 50000 \<and>
   Size_after (NewLRUCache 0) (adds 50001) = Inr 50000 \<and>
   cacheSize (NewLRUCache (- 1) :: (nat, unit) LRUCache) = - 1"
proof -
  let ?c = "NewLRUCache 0 :: (nat, unit) LRUCache"
  have "0 < cacheSize ?c" "Size ?c \<le> cacheSize ?c" "distinct [0..<50001]"
    "set [0..<50001] \<inter> dom (cache ?c) = {}"
    by (simp_all add: NewLRUCache_def SetDefault_def Size_def list_Len_def)
  from run_adds_fresh [OF consistent_NewLRUCache this, of "()" 0]
  obtain rs c' where "run ?c (adds 50001) = Inr (rs, c')"
    "Size c' = min (cacheSize ?c) (Size ?c + int (length [0..<50001]))"
    unfolding adds_def by blast
  then have "Size_after ?c (adds 50001) = Inr 50000"
    by (simp add: Size_after_def NewLRUCache_def SetDefault_def Size_def list_Len_def)
  then show ?thesis by (simp add: NewLRUCache_def SetDefault_def)
qed

text \<open>
  C3, amended. \<open>NewLRUCache 0\<close> has the default capacity 50000; every other
  \<open>maxSize\<close>, negative ones too, is kept as the capacity, so the constructor never
  yields capacity 0. In a cache whose \<open>cacheSize\<close> is 0, \<open>addRecord\<close> of a key that
  is not present inserts at the front and evicts nothing.
\<close>

theorem constructor_capacity:
  "cacheSize (NewLRUCache 0 :: ('k, 'v) LRUCache) = 50000 \<and>
   (n \<noteq> 0 \<longrightarrow> cacheSize (NewLRUCache n :: ('k, 'v) LRUCache) = n) \<and>
   cacheSize (NewLRUCache n :: ('k, 'v) LRUCache) \<noteq> 0 \<and>
   (cacheSize (c :: ('k, 'v) LRUCache) = 0 \<and> cache c (key r) = None \<longrightarrow>
      addRecord c r = Inr (False, pushed c r) \<and> ll (pushed c r) = nextElem c # ll c \<and>
      Size (pushed c r) = Size c + 1)"
proof (intro conjI impI)
  assume "cacheSize c = 0 \<and> cache c (key r) = None"
  then have k: "cache c (key r) = None"
    and z: "cacheSize c = 0 \<or> int (length (ll c)) + 1 \<le> cacheSize c" by simp_all
  show "addRecord c r = Inr (False, pushed c r)" using k z by (rule addRecord_absent_keep)
  show "ll (pushed c r) = nextElem c # ll c" "Size (pushed c r) = Size c + 1"
    by (simp_all add: pushed_def Size_def list_Len_def)
qed (simp_all add: NewLRUCache_def SetDefault_def)

theorem constructor_capacity_witness:
  "cacheSize (NewLRUCache 7 :: (string, int) LRUCache) = 7 \<and>
   cacheSize unbounded_cache = 0 \<and> cache unbounded_cache ''c'' = None \<and>
   Size unbounded_cache = 2 \<and>
   (\<exists>c'. Add unbounded_cache ''c'' 3 10 = Inr (False, c') \<and> ll c' = [2, 1, 0] \<and> Size c' = 3)"
proof -
  let ?r = "\<lparr>key = ''c'', value' = 3 :: int, expireAt = 10\<rparr>"
  have 1: "cacheSize unbounded_cache = 0 \<and> cache unbounded_cache (key ?r) = None"
    and 2: "Size unbounded_cache = 2" "nextElem unbounded_cache = 2" "ll unbounded_cache = [1, 0]"
    by (simp_all add: unbounded_cache_def ab_cache_def Size_def list_Len_def)
  note w = constructor_capacity [where n = 7 and c = unbounded_cache and r = ?r]
  from w have "cacheSize (NewLRUCache 7 :: (string, int) LRUCache) = 7" by simp
  moreover from w 1 2 have "Add unbounded_cache ''c'' 3 10 = Inr (False, pushed unbounded_cache ?r)"
    "ll (pushed unbounded_cache ?r) = [2, 1, 0]" "Size (pushed unbounded_cache ?r) = 3"
    by (simp_all add: Add_def)
  ultimately show ?thesis using 1 2 by auto
qed

end
